theory Spec2Isabelle
  imports Main "HOL-Library.Monad_Syntax"
begin

section \<open>The Android event queue and \<open>android_select\<close> (src/android.c)\<close>

text \<open>
  The development embeds the event handling functions of \<^verbatim>\<open>src/android.c\<close>
  (lines 154 to 455): the circular queue of events, \<^verbatim>\<open>android_write_event\<close>,
  \<^verbatim>\<open>android_next_event\<close>, \<^verbatim>\<open>android_pending\<close>, \<^verbatim>\<open>android_select\<close> and the
  thread \<^verbatim>\<open>android_run_select_thread\<close>.

  The program is concurrent. It is modelled as a transition system over one global
  state. A step is a maximal run of statements of one thread that ends where the thread
  can block or returns: all data of the queue is touched under \<^verbatim>\<open>event_queue.mutex\<close>
  only, so the statements between acquiring the mutex and releasing it (by
  \<^verbatim>\<open>pthread_mutex_unlock\<close> or inside \<^verbatim>\<open>pthread_cond_wait\<close>) form one step.
  The statements of the select thread outside the queue mutex are steps of their own.
  What the environment decides (the result of \<^verbatim>\<open>malloc\<close>, the result of \<^verbatim>\<open>pselect\<close>,
  the scheduling, a wait that returns without a signal, a signal handler that
  interrupts \<^verbatim>\<open>sem_wait\<close>) is an argument of the step.

  C \<^verbatim>\<open>int\<close> values are modelled as \<^typ>\<open>int\<close>: \<^verbatim>\<open>pselect\<close> returns \<open>-1\<close> or a number of
  descriptors that is at most three times the size of a descriptor set (see
  \<open>pselect_returns\<close>), and the addition in \<^verbatim>\<open>android_select\<close> adds at most one to it, so
  no operation of these functions leaves the range of \<^verbatim>\<open>int\<close> on the values the
  program can produce.
\<close>

subsection \<open>Event containers on the heap\<close>

type_synonym addr = nat

text \<open>
  \<^verbatim>\<open>struct android_event_container\<close>. A member that has never been assigned
  (storage just returned by \<^verbatim>\<open>malloc\<close>, or the \<^verbatim>\<open>event\<close> member of the static list
  head) is \<open>None\<close>. The type of events, \<^verbatim>\<open>union android_event\<close>, is declared in
  \<^verbatim>\<open>androidgui.h\<close>; the queue copies events by value and never looks inside them, so
  it is the type parameter \<open>'e\<close>.
\<close>

record 'e android_event_container =
  next_ptr :: "addr option"
  last_ptr :: "addr option"
  event :: "'e option"

type_synonym 'e heap = "addr \<Rightarrow> 'e android_event_container option"

text \<open>The address of the list head \<^verbatim>\<open>&event_queue.events\<close>.\<close>

definition events_addr :: addr where
  "events_addr = 0"

text \<open>Reading and writing members through a pointer. \<open>None\<close>: the pointer does not
  point to live storage, or the member read was never assigned.\<close>

definition get_next :: "'e heap \<Rightarrow> addr \<Rightarrow> addr option" where
  "get_next h p = (case h p of None \<Rightarrow> None | Some c \<Rightarrow> next_ptr c)"

definition get_last :: "'e heap \<Rightarrow> addr \<Rightarrow> addr option" where
  "get_last h p = (case h p of None \<Rightarrow> None | Some c \<Rightarrow> last_ptr c)"

definition get_event :: "'e heap \<Rightarrow> addr \<Rightarrow> 'e option" where
  "get_event h p = (case h p of None \<Rightarrow> None | Some c \<Rightarrow> event c)"

definition set_next :: "'e heap \<Rightarrow> addr \<Rightarrow> addr \<Rightarrow> 'e heap option" where
  "set_next h p v = (case h p of None \<Rightarrow> None | Some c \<Rightarrow> Some (h(p \<mapsto> c\<lparr>next_ptr := Some v\<rparr>)))"

definition set_last :: "'e heap \<Rightarrow> addr \<Rightarrow> addr \<Rightarrow> 'e heap option" where
  "set_last h p v = (case h p of None \<Rightarrow> None | Some c \<Rightarrow> Some (h(p \<mapsto> c\<lparr>last_ptr := Some v\<rparr>)))"

definition set_event :: "'e heap \<Rightarrow> addr \<Rightarrow> 'e \<Rightarrow> 'e heap option" where
  "set_event h p v = (case h p of None \<Rightarrow> None | Some c \<Rightarrow> Some (h(p \<mapsto> c\<lparr>event := Some v\<rparr>)))"

text \<open>Lines 393 to 397 of \<^verbatim>\<open>android_write_event\<close>, statement by statement:
  the container is linked in right after the list head.\<close>

definition link_container :: "'e heap \<Rightarrow> addr \<Rightarrow> 'e \<Rightarrow> 'e heap option" where
  "link_container h container e = do {
     n \<leftarrow> get_next h events_addr;
     h \<leftarrow> set_next h container n;
     h \<leftarrow> set_last h container events_addr;
     n \<leftarrow> get_next h container;
     h \<leftarrow> set_last h n container;
     l \<leftarrow> get_last h container;
     h \<leftarrow> set_next h l container;
     set_event h container e
   }"

text \<open>Lines 363 to 365 of \<^verbatim>\<open>android_next_event\<close>: the container is unlinked and its
  event copied out.\<close>

definition unlink_container :: "'e heap \<Rightarrow> addr \<Rightarrow> ('e heap \<times> 'e) option" where
  "unlink_container h container = do {
     l \<leftarrow> get_last h container;
     n \<leftarrow> get_next h container;
     h \<leftarrow> set_next h l n;
     n \<leftarrow> get_next h container;
     l \<leftarrow> get_last h container;
     h \<leftarrow> set_last h n l;
     ev \<leftarrow> get_event h container;
     Some (h, ev)
   }"

subsection \<open>Threads and the global state\<close>

datatype tid = Emacs_thread | Select_thread | Producer nat

datatype mutex_id = Queue_mutex | Select_mutex

datatype cond_id = Read_var | Write_var

datatype signal = SIGUSR1 | SIGUSR2

text \<open>The arguments of \<^verbatim>\<open>pselect\<close>, as stored in the six variables
  \<^verbatim>\<open>android_pselect_nfds\<close> to \<^verbatim>\<open>android_pselect_sigset\<close>. A null pointer is \<open>None\<close>.\<close>

record pselect_args =
  nfds :: int
  readfds :: "addr option"
  writefds :: "addr option"
  exceptfds :: "addr option"
  timeout :: "addr option"
  sigset :: "addr option"

text \<open>What the threads do to the synchronisation objects and what the functions
  return is recorded in a trace, in the order in which it happens.\<close>

datatype 'e action =
    Lock mutex_id
  | Unlock mutex_id
  | Wait cond_id
  | Wake cond_id
  | Signal cond_id
  | Kill signal
  | Sigwait
  | Pselect pselect_args
  | Store_rc int
  | Store_completed bool
  | Sem_post
  | Sem_wait
  | Sem_wait_interrupted
  | Inserted 'e
  | Removed 'e
  | Return int

text \<open>Where the Emacs thread (the only reader of the queue) stands.\<close>

datatype emacs_pc =
    E_idle
  | E_next_blocked
  | E_next_woken
  | E_select_locking pselect_args
  | E_select_blocked
  | E_select_woken
  | E_select_joining

text \<open>Where the select thread stands in the loop of \<^verbatim>\<open>android_run_select_thread\<close>.\<close>

datatype select_pc =
    S_sigwait
  | S_locking
  | S_pselect
  | S_post
  | S_notify

text \<open>Where a thread that writes events stands: outside \<^verbatim>\<open>android_write_event\<close>, or
  inside \<^verbatim>\<open>pthread_cond_wait\<close> on \<^verbatim>\<open>write_var\<close> (line 390) with its container and its
  event, before or after it was woken.\<close>

datatype 'e producer_pc =
    P_idle
  | P_blocked addr 'e
  | P_woken addr 'e

datatype error = Assertion_failed | Memory_fault

record 'e sys =
  heap :: "'e heap"
  num_events :: int
  mutex :: "tid option"
  select_mutex :: "tid option"
  write_var :: "nat list"
  android_pselect_args :: pselect_args
  android_pselect_rc :: int
  android_pselect_completed :: bool
  android_pselect_sem :: nat
  sigusr2_pending :: bool
  emacs :: emacs_pc
  select_thread :: select_pc
  producers :: "nat \<Rightarrow> 'e producer_pc"
  trace :: "(tid \<times> 'e action) list"

text \<open>The result of a step: the next state; or the thread cannot take this step now
  (it is blocked, or it is not at this point of its code); or the program fails.\<close>

datatype 'e outcome = State "'e sys" | Disabled | Crash error

subsection \<open>The primitives\<close>

definition emit :: "tid \<Rightarrow> 'e action \<Rightarrow> 'e sys \<Rightarrow> 'e sys" where
  "emit t a s = s\<lparr>trace := trace s @ [(t, a)]\<rparr>"

definition pthread_mutex_lock :: "tid \<Rightarrow> mutex_id \<Rightarrow> 'e sys \<Rightarrow> 'e sys" where
  "pthread_mutex_lock t m s =
     emit t (Lock m)
       (case m of Queue_mutex \<Rightarrow> s\<lparr>mutex := Some t\<rparr>
                | Select_mutex \<Rightarrow> s\<lparr>select_mutex := Some t\<rparr>)"

definition pthread_mutex_unlock :: "tid \<Rightarrow> mutex_id \<Rightarrow> 'e sys \<Rightarrow> 'e sys" where
  "pthread_mutex_unlock t m s =
     emit t (Unlock m)
       (case m of Queue_mutex \<Rightarrow> s\<lparr>mutex := None\<rparr>
                | Select_mutex \<Rightarrow> s\<lparr>select_mutex := None\<rparr>)"

text \<open>\<^verbatim>\<open>pthread_cond_signal\<close> wakes a thread blocked on the condition variable, if there
  is one. Only the Emacs thread waits on \<^verbatim>\<open>read_var\<close>; of the threads blocked on
  \<^verbatim>\<open>write_var\<close> the one that has waited longest is woken.\<close>

definition pthread_cond_signal :: "tid \<Rightarrow> cond_id \<Rightarrow> 'e sys \<Rightarrow> 'e sys" where
  "pthread_cond_signal t cv s =
     emit t (Signal cv)
       (case cv of
          Read_var \<Rightarrow>
            (case emacs s of
               E_next_blocked \<Rightarrow> s\<lparr>emacs := E_next_woken\<rparr>
             | E_select_blocked \<Rightarrow> s\<lparr>emacs := E_select_woken\<rparr>
             | _ \<Rightarrow> s)
        | Write_var \<Rightarrow>
            (case write_var s of
               [] \<Rightarrow> s
             | p # ps \<Rightarrow>
                 (case producers s p of
                    P_blocked c e \<Rightarrow> s\<lparr>write_var := ps, producers := (producers s)(p := P_woken c e)\<rparr>
                  | _ \<Rightarrow> s\<lparr>write_var := ps\<rparr>)))"

text \<open>\<^verbatim>\<open>pthread_cond_wait\<close> on the queue mutex: the first half releases the mutex and
  blocks, the second half runs once the thread was woken and the mutex is free.\<close>

definition pthread_cond_wait_enter :: "tid \<Rightarrow> cond_id \<Rightarrow> 'e sys \<Rightarrow> 'e sys" where
  "pthread_cond_wait_enter t cv s = emit t (Wait cv) (s\<lparr>mutex := None\<rparr>)"

definition pthread_cond_wait_leave :: "tid \<Rightarrow> cond_id \<Rightarrow> 'e sys \<Rightarrow> 'e sys" where
  "pthread_cond_wait_leave t cv s = emit t (Wake cv) (s\<lparr>mutex := Some t\<rparr>)"

text \<open>\<^verbatim>\<open>pthread_kill (event_queue.select_thread, sig)\<close>. The select thread blocks
  \<^verbatim>\<open>SIGUSR2\<close> and takes it with \<^verbatim>\<open>sigwait\<close>, so it stays pending until then.
  \<^verbatim>\<open>SIGUSR1\<close> runs the empty handler \<^verbatim>\<open>android_handle_sigusr1\<close>: it changes no variable of
  the program.\<close>

definition pthread_kill :: "tid \<Rightarrow> signal \<Rightarrow> 'e sys \<Rightarrow> 'e sys" where
  "pthread_kill t sig s =
     emit t (Kill sig)
       (case sig of SIGUSR2 \<Rightarrow> s\<lparr>sigusr2_pending := True\<rparr> | SIGUSR1 \<Rightarrow> s)"

definition sem_post :: "tid \<Rightarrow> 'e sys \<Rightarrow> 'e sys" where
  "sem_post t s = emit t Sem_post (s\<lparr>android_pselect_sem := android_pselect_sem s + 1\<rparr>)"

definition sem_wait :: "tid \<Rightarrow> 'e sys \<Rightarrow> 'e sys" where
  "sem_wait t s = emit t Sem_wait (s\<lparr>android_pselect_sem := android_pselect_sem s - 1\<rparr>)"

subsection \<open>\<^verbatim>\<open>android_init_events\<close>\<close>

text \<open>The state when \<^verbatim>\<open>android_init_events\<close> has returned: the list head points to
  itself (lines 310 and 311), the semaphore is 0, the static variables are zero, the
  select thread has been created and no other thread is inside the queue's functions.\<close>

definition android_init_events :: "'e sys" where
  "android_init_events =
     \<lparr>heap = (\<lambda>a. None)(events_addr \<mapsto>
         \<lparr>next_ptr = Some events_addr, last_ptr = Some events_addr, event = None\<rparr>),
      num_events = 0,
      mutex = None,
      select_mutex = None,
      write_var = [],
      android_pselect_args =
        \<lparr>nfds = 0, readfds = None, writefds = None, exceptfds = None,
         timeout = None, sigset = None\<rparr>,
      android_pselect_rc = 0,
      android_pselect_completed = False,
      android_pselect_sem = 0,
      sigusr2_pending = False,
      emacs = E_idle,
      select_thread = S_sigwait,
      producers = (\<lambda>p. P_idle),
      trace = []\<rparr>"

subsection \<open>\<^verbatim>\<open>android_pending\<close>\<close>

definition android_pending :: "'e sys \<Rightarrow> 'e outcome" where
  "android_pending s =
     (if emacs s \<noteq> E_idle \<or> mutex s \<noteq> None then Disabled
      else
        let s = pthread_mutex_lock Emacs_thread Queue_mutex s;
            i = num_events s;
            s = pthread_mutex_unlock Emacs_thread Queue_mutex s
        in State (emit Emacs_thread (Return i) s))"

subsection \<open>\<^verbatim>\<open>android_next_event\<close>\<close>

text \<open>Lines 357 to 373: the container before the list head is unlinked, its event is
  copied to the caller (recorded as \<open>Removed\<close>), the count is decremented, the container
  is freed and \<^verbatim>\<open>write_var\<close> is signalled. \<^verbatim>\<open>eassert\<close> aborts when it fails; compiled without checking,
  the code goes on to pass the static list head to \<^verbatim>\<open>free\<close>, which is undefined. Both
  are the same failure here.\<close>

definition android_next_event_take :: "'e sys \<Rightarrow> 'e outcome" where
  "android_next_event_take s =
     (case get_last (heap s) events_addr of
        None \<Rightarrow> Crash Memory_fault
      | Some container \<Rightarrow>
          if container = events_addr then Crash Assertion_failed
          else
            (case unlink_container (heap s) container of
               None \<Rightarrow> Crash Memory_fault
             | Some (h, ev) \<Rightarrow>
                 let s = s\<lparr>heap := h\<rparr>;
                     s = emit Emacs_thread (Removed ev) s;
                     s = s\<lparr>num_events := num_events s - 1\<rparr>;
                     s = s\<lparr>heap := (heap s)(container := None)\<rparr>;
                     s = pthread_cond_signal Emacs_thread Write_var s;
                     s = pthread_mutex_unlock Emacs_thread Queue_mutex s
                 in State (s\<lparr>emacs := E_idle\<rparr>)))"

text \<open>The call, up to the point where it blocks (line 354) or returns.\<close>

definition android_next_event :: "'e sys \<Rightarrow> 'e outcome" where
  "android_next_event s =
     (if emacs s \<noteq> E_idle \<or> mutex s \<noteq> None then Disabled
      else
        let s = pthread_mutex_lock Emacs_thread Queue_mutex s in
        if num_events s = 0
        then State (pthread_cond_wait_enter Emacs_thread Read_var (s\<lparr>emacs := E_next_blocked\<rparr>))
        else android_next_event_take s)"

text \<open>The rest of the call after \<^verbatim>\<open>pthread_cond_wait\<close> has returned. The condition
  of line 353 is not tested again.\<close>

definition android_next_event_resume :: "'e sys \<Rightarrow> 'e outcome" where
  "android_next_event_resume s =
     (if emacs s \<noteq> E_next_woken \<or> mutex s \<noteq> None then Disabled
      else android_next_event_take (pthread_cond_wait_leave Emacs_thread Read_var s))"

subsection \<open>\<^verbatim>\<open>android_write_event\<close>\<close>

text \<open>Lines 393 to 400: the container is linked in (recorded as \<open>Inserted\<close>), the
  count is incremented and \<^verbatim>\<open>read_var\<close> is signalled.\<close>

definition android_write_event_put :: "nat \<Rightarrow> addr \<Rightarrow> 'e \<Rightarrow> 'e sys \<Rightarrow> 'e outcome" where
  "android_write_event_put p container e s =
     (case link_container (heap s) container e of
        None \<Rightarrow> Crash Memory_fault
      | Some h \<Rightarrow>
          let s = s\<lparr>heap := h, num_events := num_events s + 1\<rparr>;
              s = emit (Producer p) (Inserted e) s;
              s = pthread_cond_signal (Producer p) Read_var s;
              s = pthread_mutex_unlock (Producer p) Queue_mutex s
          in State (s\<lparr>producers := (producers s)(p := P_idle)\<rparr>))"

text \<open>The call by thread \<open>p\<close>, up to the point where it blocks (line 390) or returns.
  \<open>m\<close> is what \<^verbatim>\<open>malloc\<close> returns: \<open>None\<close> for a null pointer, else the address of
  storage that is not live.\<close>

definition android_write_event :: "nat \<Rightarrow> addr option \<Rightarrow> 'e \<Rightarrow> 'e sys \<Rightarrow> 'e outcome" where
  "android_write_event p m e s =
     (if producers s p \<noteq> P_idle then Disabled
      else
        (case m of
           None \<Rightarrow> State s
         | Some container \<Rightarrow>
             if heap s container \<noteq> None \<or> mutex s \<noteq> None then Disabled
             else
               let s = s\<lparr>heap := (heap s)(container \<mapsto>
                           \<lparr>next_ptr = None, last_ptr = None, event = None\<rparr>)\<rparr>;
                   s = pthread_mutex_lock (Producer p) Queue_mutex s
               in
                 if num_events s \<ge> 1024
                 then State (pthread_cond_wait_enter (Producer p) Write_var
                        (s\<lparr>write_var := write_var s @ [p],
                           producers := (producers s)(p := P_blocked container e)\<rparr>))
                 else android_write_event_put p container e s))"

text \<open>The rest of the call after \<^verbatim>\<open>pthread_cond_wait\<close> has returned. The condition
  of line 389 is not tested again.\<close>

definition android_write_event_resume :: "nat \<Rightarrow> 'e sys \<Rightarrow> 'e outcome" where
  "android_write_event_resume p s =
     (case producers s p of
        P_woken container e \<Rightarrow>
          if mutex s \<noteq> None then Disabled
          else android_write_event_put p container e
                 (pthread_cond_wait_leave (Producer p) Write_var s)
      | _ \<Rightarrow> Disabled)"

subsection \<open>\<^verbatim>\<open>android_select\<close>\<close>

text \<open>Lines 421 to 431: the arguments are stored under the select mutex, the select
  thread is started and the Emacs thread blocks on \<^verbatim>\<open>read_var\<close>.\<close>

definition android_select_arm :: "pselect_args \<Rightarrow> 'e sys \<Rightarrow> 'e sys" where
  "android_select_arm args s =
     (let s = pthread_mutex_lock Emacs_thread Select_mutex s;
          s = s\<lparr>android_pselect_args := args\<rparr>;
          s = pthread_mutex_unlock Emacs_thread Select_mutex s;
          s = pthread_kill Emacs_thread SIGUSR2 s
      in pthread_cond_wait_enter Emacs_thread Read_var (s\<lparr>emacs := E_select_blocked\<rparr>))"

text \<open>The call, lines 410 to 431, up to the point where it blocks or returns.\<close>

definition android_select :: "pselect_args \<Rightarrow> 'e sys \<Rightarrow> 'e outcome" where
  "android_select args s =
     (if emacs s \<noteq> E_idle \<or> mutex s \<noteq> None then Disabled
      else
        let s = pthread_mutex_lock Emacs_thread Queue_mutex s in
        if num_events s \<noteq> 0
        then State (emit Emacs_thread (Return 1)
               (pthread_mutex_unlock Emacs_thread Queue_mutex s))
        else
          let s = s\<lparr>android_pselect_completed := False\<rparr>;
              s = emit Emacs_thread (Store_completed False) s
          in
            if select_mutex s \<noteq> None then State (s\<lparr>emacs := E_select_locking args\<rparr>)
            else State (android_select_arm args s))"

text \<open>Line 421 when the select mutex was held: the call goes on once it is free.\<close>

definition android_select_locked :: "'e sys \<Rightarrow> 'e outcome" where
  "android_select_locked s =
     (case emacs s of
        E_select_locking args \<Rightarrow>
          if select_mutex s \<noteq> None then Disabled else State (android_select_arm args s)
      | _ \<Rightarrow> Disabled)"

text \<open>Lines 431 to 435: \<^verbatim>\<open>pthread_cond_wait\<close> returns with the queue mutex held and the
  select thread is interrupted.\<close>

definition android_select_resume :: "'e sys \<Rightarrow> 'e outcome" where
  "android_select_resume s =
     (if emacs s \<noteq> E_select_woken \<or> mutex s \<noteq> None then Disabled
      else
        let s = pthread_cond_wait_leave Emacs_thread Read_var s;
            s = pthread_kill Emacs_thread SIGUSR1 s
        in State (s\<lparr>emacs := E_select_joining\<rparr>))"

text \<open>Lines 441 to 449: the value returned, from the number of events and the value of
  \<^verbatim>\<open>android_pselect_rc\<close> at that moment. \<^verbatim>\<open>nfds_return\<close> is 0 since line 418.\<close>

definition nfds_return :: "int \<Rightarrow> int \<Rightarrow> int" where
  "nfds_return n rc =
     (let r = 0;
          r = (if n \<noteq> 0 then 1 else r);
          r = (if rc \<ge> 0 then r + rc else r);
          r = (if r = 0 \<and> rc < 0 then rc else r)
      in r)"

text \<open>Lines 438 to 454 when \<^verbatim>\<open>sem_wait\<close> takes the semaphore, which it does once the
  semaphore is positive.\<close>

definition android_select_join :: "'e sys \<Rightarrow> 'e outcome" where
  "android_select_join s =
     (if emacs s \<noteq> E_select_joining \<or> android_pselect_sem s = 0 then Disabled
      else
        let s = sem_wait Emacs_thread s;
            r = nfds_return (num_events s) (android_pselect_rc s);
            s = pthread_mutex_unlock Emacs_thread Queue_mutex s
        in State (emit Emacs_thread (Return r) (s\<lparr>emacs := E_idle\<rparr>)))"

text \<open>Line 438 when a signal handler runs in the Emacs thread while it is blocked in
  \<^verbatim>\<open>sem_wait\<close>: \<^verbatim>\<open>sem_wait\<close> returns \<open>-1\<close> (\<^verbatim>\<open>EINTR\<close>) and leaves the semaphore as it is. The
  code does not look at the value \<^verbatim>\<open>sem_wait\<close> returns and goes on with lines 441 to
  454.\<close>

definition android_select_join_interrupted :: "'e sys \<Rightarrow> 'e outcome" where
  "android_select_join_interrupted s =
     (if emacs s \<noteq> E_select_joining \<or> android_pselect_sem s \<noteq> 0 then Disabled
      else
        let s = emit Emacs_thread Sem_wait_interrupted s;
            r = nfds_return (num_events s) (android_pselect_rc s);
            s = pthread_mutex_unlock Emacs_thread Queue_mutex s
        in State (emit Emacs_thread (Return r) (s\<lparr>emacs := E_idle\<rparr>)))"

subsection \<open>\<^verbatim>\<open>android_run_select_thread\<close>\<close>

text \<open>Line 242: \<^verbatim>\<open>sigwait\<close> returns once \<^verbatim>\<open>SIGUSR2\<close> is pending, and takes it.\<close>

definition select_thread_sigwait :: "'e sys \<Rightarrow> 'e outcome" where
  "select_thread_sigwait s =
     (if select_thread s \<noteq> S_sigwait \<or> \<not> sigusr2_pending s then Disabled
      else State (emit Select_thread Sigwait
             (s\<lparr>sigusr2_pending := False, select_thread := S_locking\<rparr>)))"

text \<open>Lines 246 and 247: the select mutex is taken and \<^verbatim>\<open>pselect\<close> is called with the
  stored arguments.\<close>

definition select_thread_pselect :: "'e sys \<Rightarrow> 'e outcome" where
  "select_thread_pselect s =
     (if select_thread s \<noteq> S_locking \<or> select_mutex s \<noteq> None then Disabled
      else
        let s = pthread_mutex_lock Select_thread Select_mutex s;
            s = emit Select_thread (Pselect (android_pselect_args s)) s
        in State (s\<lparr>select_thread := S_pselect\<rparr>))"

text \<open>What \<^verbatim>\<open>pselect\<close>, a primitive of the platform, can return for given arguments:
  \<open>-1\<close> (an error, or \<^verbatim>\<open>EINTR\<close> after a signal); 0 when the timeout has expired, which
  needs a timeout; or the number of ready descriptors, which are descriptors below
  \<^verbatim>\<open>nfds\<close> in the sets given, and a set holds 1024 descriptors (\<^verbatim>\<open>FD_SETSIZE\<close>).\<close>

definition given_sets :: "pselect_args \<Rightarrow> int" where
  "given_sets args =
     (if readfds args = None then 0 else 1) + (if writefds args = None then 0 else 1) +
     (if exceptfds args = None then 0 else 1)"

definition pselect_returns :: "pselect_args \<Rightarrow> int \<Rightarrow> bool" where
  "pselect_returns args rc \<longleftrightarrow>
     rc = - 1 \<or> (rc = 0 \<and> timeout args \<noteq> None) \<or>
     (0 < rc \<and> rc \<le> given_sets args * min (nfds args) 1024)"

text \<open>Lines 247 to 254: \<^verbatim>\<open>pselect\<close> returns \<open>rc\<close>, which is stored, and the select mutex
  is released. The arguments are those stored when \<^verbatim>\<open>pselect\<close> was called: they are
  written under the select mutex only, which the select thread holds.\<close>

definition select_thread_store :: "int \<Rightarrow> 'e sys \<Rightarrow> 'e outcome" where
  "select_thread_store rc s =
     (if select_thread s \<noteq> S_pselect \<or> \<not> pselect_returns (android_pselect_args s) rc
      then Disabled
      else
        let s = s\<lparr>android_pselect_rc := rc\<rparr>;
            s = emit Select_thread (Store_rc rc) s;
            s = pthread_mutex_unlock Select_thread Select_mutex s
        in State (s\<lparr>select_thread := S_post\<rparr>))"

text \<open>Line 259.\<close>

definition select_thread_post :: "'e sys \<Rightarrow> 'e outcome" where
  "select_thread_post s =
     (if select_thread s \<noteq> S_post then Disabled
      else State ((sem_post Select_thread s)\<lparr>select_thread := S_notify\<rparr>))"

text \<open>Lines 261 to 264.\<close>

definition select_thread_notify :: "'e sys \<Rightarrow> 'e outcome" where
  "select_thread_notify s =
     (if select_thread s \<noteq> S_notify \<or> mutex s \<noteq> None then Disabled
      else
        let s = pthread_mutex_lock Select_thread Queue_mutex s;
            s = s\<lparr>android_pselect_completed := True\<rparr>;
            s = emit Select_thread (Store_completed True) s;
            s = pthread_cond_signal Select_thread Read_var s;
            s = pthread_mutex_unlock Select_thread Queue_mutex s
        in State (s\<lparr>select_thread := S_sigwait\<rparr>))"

subsection \<open>Spurious wakeups\<close>

text \<open>POSIX lets \<^verbatim>\<open>pthread_cond_wait\<close> return although no thread signalled the
  condition variable.\<close>

definition spurious_wakeup :: "tid \<Rightarrow> 'e sys \<Rightarrow> 'e outcome" where
  "spurious_wakeup t s =
     (case t of
        Emacs_thread \<Rightarrow>
          (case emacs s of
             E_next_blocked \<Rightarrow> State (s\<lparr>emacs := E_next_woken\<rparr>)
           | E_select_blocked \<Rightarrow> State (s\<lparr>emacs := E_select_woken\<rparr>)
           | _ \<Rightarrow> Disabled)
      | Select_thread \<Rightarrow> Disabled
      | Producer p \<Rightarrow>
          (case producers s p of
             P_blocked c e \<Rightarrow>
               State (s\<lparr>write_var := removeAll p (write_var s),
                        producers := (producers s)(p := P_woken c e)\<rparr>)
           | _ \<Rightarrow> Disabled))"

subsection \<open>Executions\<close>

datatype 'e label =
    Write_event nat "addr option" 'e
  | Write_event_resume nat
  | Next_event
  | Next_event_resume
  | Pending
  | Select pselect_args
  | Select_locked
  | Select_resume
  | Select_join
  | Select_join_interrupted
  | Thread_sigwait
  | Thread_pselect
  | Thread_store int
  | Thread_post
  | Thread_notify
  | Spurious tid

fun step :: "'e label \<Rightarrow> 'e sys \<Rightarrow> 'e outcome" where
  "step (Write_event p m e) s = android_write_event p m e s"
| "step (Write_event_resume p) s = android_write_event_resume p s"
| "step Next_event s = android_next_event s"
| "step Next_event_resume s = android_next_event_resume s"
| "step Pending s = android_pending s"
| "step (Select args) s = android_select args s"
| "step Select_locked s = android_select_locked s"
| "step Select_resume s = android_select_resume s"
| "step Select_join s = android_select_join s"
| "step Select_join_interrupted s = android_select_join_interrupted s"
| "step Thread_sigwait s = select_thread_sigwait s"
| "step Thread_pselect s = select_thread_pselect s"
| "step (Thread_store rc) s = select_thread_store rc s"
| "step Thread_post s = select_thread_post s"
| "step Thread_notify s = select_thread_notify s"
| "step (Spurious t) s = spurious_wakeup t s"

text \<open>A schedule is run from a state until it ends, a step is not enabled or the
  program fails.\<close>

fun run :: "'e label list \<Rightarrow> 'e sys \<Rightarrow> 'e outcome" where
  "run [] s = State s"
| "run (l # ls) s = (case step l s of State s' \<Rightarrow> run ls s' | Disabled \<Rightarrow> Disabled | Crash e \<Rightarrow> Crash e)"

subsection \<open>Events and return values\<close>

text \<open>The events that \<^verbatim>\<open>android.c\<close> writes (lines 1086 to 1128): the members
  \<^verbatim>\<open>xconfigure\<close> (window, time, x, y, width, height) and \<^verbatim>\<open>xkey\<close> (window, time,
  state, keycode) of \<^verbatim>\<open>union android_event\<close>, tagged by \<^verbatim>\<open>type\<close>.\<close>

datatype android_event =
    Configure_notify int int int int int int
  | Key_press int int int int
  | Key_release int int int int

text \<open>The value with which a call of the Emacs thread has just returned: the last
  action of the trace.\<close>

definition return_value :: "(tid \<times> 'e action) list \<Rightarrow> int option" where
  "return_value tr =
     (if tr = [] then None
      else (case last tr of (Emacs_thread, Return r) \<Rightarrow> Some r | _ \<Rightarrow> None))"

definition returned :: "'e outcome \<Rightarrow> int option" where
  "returned out = (case out of State s \<Rightarrow> return_value (trace s) | _ \<Rightarrow> None)"

text \<open>The state reached from the initial state by a schedule (the initial state itself
  when the schedule cannot be run to its end).\<close>

definition state_after :: "'e label list \<Rightarrow> 'e sys" where
  "state_after ls = (case run ls android_init_events of State s \<Rightarrow> s | _ \<Rightarrow> android_init_events)"

subsection \<open>The circular list, read off the heap\<close>

text \<open>\<open>dl h p x as y\<close>: from \<open>x\<close>, whose predecessor is \<open>p\<close>, the \<^verbatim>\<open>next\<close> pointers lead
  through the containers \<open>as\<close> to \<open>y\<close>, and the \<^verbatim>\<open>last\<close> pointer of each container
  points to the one before it.\<close>

fun dl :: "'e heap \<Rightarrow> addr \<Rightarrow> addr \<Rightarrow> addr list \<Rightarrow> addr \<Rightarrow> bool" where
  "dl h p x [] y = (x = y)"
| "dl h p x (a # as) y =
     (x = a \<and> get_last h a = Some p \<and>
      (case get_next h a of None \<Rightarrow> False | Some b \<Rightarrow> dl h a b as y))"

text \<open>\<open>ring h as\<close>: the list is circular through the list head, and \<open>as\<close> are its other
  containers in the order of the \<^verbatim>\<open>next\<close> pointers, so the newest event comes first
  and \<^verbatim>\<open>event_queue.events.last\<close> is the oldest.\<close>

definition ring :: "'e heap \<Rightarrow> addr list \<Rightarrow> bool" where
  "ring h as =
     (case get_next h events_addr of
        None \<Rightarrow> False
      | Some x \<Rightarrow> dl h events_addr x as events_addr \<and>
                  get_last h events_addr = Some (last (events_addr # as)))"

text \<open>The containers of the list, found as a program would find them: follow the
  \<^verbatim>\<open>next\<close> pointers from \<^verbatim>\<open>event_queue.events.next\<close> until the list head is reached
  again. On a heap whose pointers never lead back the walk does not end.\<close>

partial_function (option) nodes_from :: "'e heap \<Rightarrow> addr \<Rightarrow> addr list option" where
  "nodes_from h x =
     (if x = events_addr then Some []
      else (case get_next h x of
              None \<Rightarrow> None
            | Some b \<Rightarrow> Option.bind (nodes_from h b) (\<lambda>as. Some (x # as))))"

definition live_entries :: "'e sys \<Rightarrow> addr list option" where
  "live_entries s =
     (case get_next (heap s) events_addr of None \<Rightarrow> None | Some x \<Rightarrow> nodes_from (heap s) x)"

text \<open>The events in the queue, oldest first.\<close>

definition pending_events :: "'e sys \<Rightarrow> 'e list option" where
  "pending_events s =
     (case live_entries s of
        None \<Rightarrow> None
      | Some as \<Rightarrow> those (map (get_event (heap s)) (rev as)))"

text \<open>The events linked into the queue and the events taken out of it, each in the
  order in which it happened.\<close>

fun inserted :: "(tid \<times> 'e action) list \<Rightarrow> 'e list" where
  "inserted [] = []"
| "inserted ((t, Inserted e) # tr) = e # inserted tr"
| "inserted (x # tr) = inserted tr"

fun removed :: "(tid \<times> 'e action) list \<Rightarrow> 'e list" where
  "removed [] = []"
| "removed ((t, Removed e) # tr) = e # removed tr"
| "removed (x # tr) = removed tr"

text \<open>The container a writing thread holds while it is inside \<^verbatim>\<open>pthread_cond_wait\<close>.\<close>

fun container_of :: "'e producer_pc \<Rightarrow> addr option" where
  "container_of P_idle = None"
| "container_of (P_blocked c e) = Some c"
| "container_of (P_woken c e) = Some c"

text \<open>The invariant of the queue: the heap holds a well-formed circular list of
  \<^verbatim>\<open>num_events\<close> distinct containers \<open>as\<close> with the events \<open>es\<close> (oldest first) that were
  inserted and not yet removed; the containers of the blocked writers are live, are
  not in the list and differ from each other.\<close>

definition queue_inv :: "'e sys \<Rightarrow> addr list \<Rightarrow> 'e list \<Rightarrow> bool" where
  "queue_inv s as es \<longleftrightarrow>
     ring (heap s) as \<and> distinct as \<and> events_addr \<notin> set as \<and>
     num_events s = int (length as) \<and>
     map (get_event (heap s)) as = map Some (rev es) \<and>
     inserted (trace s) = removed (trace s) @ es \<and>
     (\<forall>p c. container_of (producers s p) = Some c \<longrightarrow>
        heap s c \<noteq> None \<and> c \<notin> set as \<and> c \<noteq> events_addr \<and>
        (\<forall>q. q \<noteq> p \<longrightarrow> container_of (producers s q) \<noteq> Some c))"

text \<open>\<open>same_queue s s'\<close>: from \<open>s\<close> to \<open>s'\<close> the heap, the count, the containers held by
  the writers and the events inserted and removed are the same.\<close>

definition same_queue :: "'e sys \<Rightarrow> 'e sys \<Rightarrow> bool" where
  "same_queue s s' \<longleftrightarrow>
     heap s' = heap s \<and> num_events s' = num_events s \<and>
     (\<forall>p. container_of (producers s' p) = container_of (producers s p)) \<and>
     inserted (trace s') = inserted (trace s) \<and> removed (trace s') = removed (trace s)"

subsection \<open>The handshake between \<^verbatim>\<open>android_select\<close> and the select thread\<close>

text \<open>The value that \<^verbatim>\<open>pselect\<close> returned in the iteration of the select thread started
  by the last \<^verbatim>\<open>SIGUSR2\<close>, read off the trace: \<open>None\<close> as long as no value was stored
  since that signal was sent.\<close>

fun result_after :: "int option \<Rightarrow> (tid \<times> 'e action) list \<Rightarrow> int option" where
  "result_after r [] = r"
| "result_after r ((t, Kill SIGUSR2) # tr) = result_after None tr"
| "result_after r ((t, Store_rc k) # tr) = result_after (Some k) tr"
| "result_after r (x # tr) = result_after r tr"

definition pselect_result :: "(tid \<times> 'e action) list \<Rightarrow> int option" where
  "pselect_result tr = result_after None tr"

text \<open>The Emacs thread is inside \<^verbatim>\<open>android_select\<close> and has started the select thread.\<close>

fun waiting_select :: "emacs_pc \<Rightarrow> bool" where
  "waiting_select E_select_blocked = True"
| "waiting_select E_select_woken = True"
| "waiting_select E_select_joining = True"
| "waiting_select pc = False"

text \<open>The select thread has taken \<^verbatim>\<open>SIGUSR2\<close> and not yet posted the semaphore.\<close>

fun calling_pselect :: "select_pc \<Rightarrow> bool" where
  "calling_pselect S_locking = True"
| "calling_pselect S_pselect = True"
| "calling_pselect S_post = True"
| "calling_pselect pc = False"

text \<open>The invariant of the handshake: while the Emacs thread waits in \<^verbatim>\<open>android_select\<close>
  exactly one of these holds: \<^verbatim>\<open>SIGUSR2\<close> is pending, the select thread is on its way to the
  post, or the semaphore is 1; otherwise none holds. The select mutex is held exactly
  while \<^verbatim>\<open>pselect\<close> runs. Once the result is stored, \<^verbatim>\<open>android_pselect_rc\<close> is the result
  of the iteration that this call started.\<close>

definition handshake :: "'e sys \<Rightarrow> bool" where
  "handshake s \<longleftrightarrow>
     android_pselect_sem s + (if calling_pselect (select_thread s) then 1 else 0) +
       (if sigusr2_pending s then 1 else 0) = (if waiting_select (emacs s) then 1 else 0) \<and>
     select_mutex s = (if select_thread s = S_pselect then Some Select_thread else None) \<and>
     (waiting_select (emacs s) \<and> (select_thread s = S_post \<or> 0 < android_pselect_sem s) \<longrightarrow>
        pselect_result (trace s) = Some (android_pselect_rc s))"

text \<open>\<open>same_handshake s s'\<close>: from \<open>s\<close> to \<open>s'\<close> nothing the handshake depends on has
  changed.\<close>

definition same_handshake :: "'e sys \<Rightarrow> 'e sys \<Rightarrow> bool" where
  "same_handshake s s' \<longleftrightarrow>
     android_pselect_sem s' = android_pselect_sem s \<and>
     calling_pselect (select_thread s') = calling_pselect (select_thread s) \<and>
     (select_thread s' = S_pselect) = (select_thread s = S_pselect) \<and>
     (select_thread s' = S_post) = (select_thread s = S_post) \<and>
     sigusr2_pending s' = sigusr2_pending s \<and> select_mutex s' = select_mutex s \<and>
     android_pselect_rc s' = android_pselect_rc s \<and>
     waiting_select (emacs s') = waiting_select (emacs s) \<and>
     pselect_result (trace s') = pselect_result (trace s)"

subsection \<open>The order of the select thread's actions\<close>

text \<open>How far an iteration of the loop of \<^verbatim>\<open>android_run_select_thread\<close> has come:
  nothing stored yet; \<^verbatim>\<open>android_pselect_rc\<close> stored (line 253); semaphore posted
  (line 259); queue mutex locked (line 261); flag set (line 262); \<^verbatim>\<open>read_var\<close>
  signalled (line 263). Unlocking the queue mutex (line 264) ends the iteration.\<close>

datatype phase = Before_store | Stored | Posted | Locked | Flagged | Signalled

text \<open>One action of the select thread, checked against the order of the loop body.
  \<open>None\<close>: the action comes out of order. Actions on the select mutex, \<^verbatim>\<open>sigwait\<close> and
  the call of \<^verbatim>\<open>pselect\<close> are not constrained.\<close>

fun next_phase :: "phase \<Rightarrow> 'e action \<Rightarrow> phase option" where
  "next_phase ph (Store_rc rc) = (if ph = Before_store then Some Stored else None)"
| "next_phase ph Sem_post = (if ph = Stored then Some Posted else None)"
| "next_phase ph (Lock Queue_mutex) = (if ph = Posted then Some Locked else None)"
| "next_phase ph (Store_completed b) = (if ph = Locked \<and> b then Some Flagged else None)"
| "next_phase ph (Signal cv) = (if ph = Flagged \<and> cv = Read_var then Some Signalled else None)"
| "next_phase ph (Unlock Queue_mutex) = (if ph = Signalled then Some Before_store else None)"
| "next_phase ph a = Some ph"

text \<open>The phase after a trace, from a phase; only the select thread's actions count.\<close>

fun phase_after :: "phase option \<Rightarrow> (tid \<times> 'e action) list \<Rightarrow> phase option" where
  "phase_after ph [] = ph"
| "phase_after ph ((t, a) # tr) =
     phase_after (if t = Select_thread then Option.bind ph (\<lambda>p. next_phase p a) else ph) tr"

definition loop_order :: "(tid \<times> 'e action) list \<Rightarrow> phase option" where
  "loop_order tr = phase_after (Some Before_store) tr"

text \<open>The phase that belongs to a point of the select thread's code.\<close>

fun phase_of :: "select_pc \<Rightarrow> phase" where
  "phase_of S_post = Stored"
| "phase_of S_notify = Posted"
| "phase_of pc = Before_store"

text \<open>\<open>quiet s\<close>: no thread is inside a function of the queue and no mutex is held.\<close>

definition quiet :: "'e sys \<Rightarrow> bool" where
  "quiet s \<longleftrightarrow>
     emacs s = E_idle \<and> mutex s = None \<and> write_var s = [] \<and> (\<forall>p. producers s p = P_idle)"

subsection \<open>Schedules\<close>

text \<open>\<open>n\<close> calls of \<^verbatim>\<open>android_write_event\<close> by one thread, with \<^verbatim>\<open>malloc\<close> returning the
  addresses 1 to \<open>n\<close>.\<close>

fun fill_queue :: "nat \<Rightarrow> 'e \<Rightarrow> 'e label list" where
  "fill_queue 0 e = []"
| "fill_queue (Suc n) e = fill_queue n e @ [Write_event 0 (Some (Suc n)) e]"

section \<open>Properties\<close>

lemmas prim_defs = emit_def pthread_mutex_lock_def pthread_mutex_unlock_def
  pthread_cond_signal_def pthread_cond_wait_enter_def pthread_cond_wait_leave_def
  pthread_kill_def sem_post_def sem_wait_def

lemmas heap_defs = get_next_def get_last_def get_event_def set_next_def set_last_def
  set_event_def link_container_def unlink_container_def events_addr_def

lemmas step_defs = android_pending_def android_next_event_def android_next_event_take_def
  android_next_event_resume_def android_write_event_def android_write_event_put_def
  android_write_event_resume_def android_select_def android_select_arm_def
  android_select_locked_def android_select_resume_def android_select_join_def
  android_select_join_interrupted_def given_sets_def pselect_returns_def
  select_thread_sigwait_def select_thread_pselect_def select_thread_store_def
  select_thread_post_def select_thread_notify_def spurious_wakeup_def

lemmas run_defs = state_after_def android_init_events_def step_defs prim_defs heap_defs

subsection \<open>Allocation failure in \<^verbatim>\<open>android_write_event\<close>\<close>

text \<open>
  Claim C7. When \<^verbatim>\<open>malloc\<close> returns a null pointer, the call of
  \<^verbatim>\<open>android_write_event\<close> returns at once: the step is enabled whoever holds the queue
  mutex and however many events are queued (it does not block), it does not fail, and
  the state after it is the state before it: no container is allocated or linked in,
  \<^verbatim>\<open>num_events\<close> is the same, and the trace has no new action, so no condition variable
  was signalled. The event is dropped.
\<close>

theorem write_event_malloc_failure:
  "producers s p = P_idle \<Longrightarrow> android_write_event p None e s = State s"
  by (simp add: android_write_event_def)

theorem write_event_malloc_failure_witness:
  "mutex (state_after
      [Select \<lparr>nfds = 0, readfds = None, writefds = None, exceptfds = None, timeout = None, sigset = None\<rparr>,
       Thread_sigwait, Thread_pselect, Write_event 0 (Some 1) (Key_press 1 0 0 65),
       Select_resume]) = Some Emacs_thread \<and>
   producers (state_after
      [Select \<lparr>nfds = 0, readfds = None, writefds = None, exceptfds = None, timeout = None, sigset = None\<rparr>,
       Thread_sigwait, Thread_pselect, Write_event 0 (Some 1) (Key_press 1 0 0 65),
       Select_resume]) 1 = P_idle \<and>
   android_write_event 1 None (Key_release 1 1 0 65) (state_after
      [Select \<lparr>nfds = 0, readfds = None, writefds = None, exceptfds = None, timeout = None, sigset = None\<rparr>,
       Thread_sigwait, Thread_pselect, Write_event 0 (Some 1) (Key_press 1 0 0 65),
       Select_resume])
   = State (state_after
      [Select \<lparr>nfds = 0, readfds = None, writefds = None, exceptfds = None, timeout = None, sigset = None\<rparr>,
       Thread_sigwait, Thread_pselect, Write_event 0 (Some 1) (Key_press 1 0 0 65),
       Select_resume])"
proof -
  let ?s = "state_after
      [Select \<lparr>nfds = 0, readfds = None, writefds = None, exceptfds = None, timeout = None, sigset = None\<rparr>,
       Thread_sigwait, Thread_pselect, Write_event 0 (Some 1) (Key_press 1 0 0 65),
       Select_resume]"
  have h: "producers ?s 1 = P_idle" and m: "mutex ?s = Some Emacs_thread"
    by (simp_all add: run_defs)
  from write_event_malloc_failure [OF h, of "Key_release 1 1 0 65"] h m show ?thesis
    by simp
qed

subsection \<open>\<^verbatim>\<open>android_select\<close> with events queued\<close>

text \<open>
  Claim C3. A call of \<^verbatim>\<open>android_select\<close> that finds \<^verbatim>\<open>num_events\<close> greater than zero
  returns 1 in the same step. All it does is lock the queue mutex, unlock it and return:
  the trace grows by exactly these three actions. \<^verbatim>\<open>pselect\<close> is called by the select
  thread only, after it has taken a pending \<^verbatim>\<open>SIGUSR2\<close>; the call sends no signal,
  \<^verbatim>\<open>SIGUSR2\<close> is pending after it only if it was before, and the select thread stands
  where it stood.
\<close>

theorem select_queued_immediate:
  assumes "emacs s = E_idle" and "mutex s = None" and "0 < num_events s"
  shows "\<exists>s'. android_select args s = State s' \<and>
     trace s' = trace s @ [(Emacs_thread, Lock Queue_mutex), (Emacs_thread, Unlock Queue_mutex),
                           (Emacs_thread, Return 1)] \<and>
     select_thread s' = select_thread s \<and> sigusr2_pending s' = sigusr2_pending s \<and>
     emacs s' = E_idle"
  using assms by (simp add: android_select_def prim_defs)

theorem select_queued_immediate_witness:
  "emacs (state_after [Write_event 0 (Some 1) (Key_press 1 0 0 65)]) = E_idle \<and>
   mutex (state_after [Write_event 0 (Some 1) (Key_press 1 0 0 65)]) = None \<and>
   0 < num_events (state_after [Write_event 0 (Some 1) (Key_press 1 0 0 65)]) \<and>
   returned (android_select
       \<lparr>nfds = 0, readfds = None, writefds = None, exceptfds = None, timeout = None, sigset = None\<rparr>
       (state_after [Write_event 0 (Some 1) (Key_press 1 0 0 65)])) = Some 1"
proof -
  let ?s = "state_after [Write_event 0 (Some 1) (Key_press 1 0 0 65)]"
  have h: "emacs ?s = E_idle" "mutex ?s = None" "0 < num_events ?s"
    by (simp_all add: run_defs)
  from select_queued_immediate [OF h] obtain s' where
    "android_select
       \<lparr>nfds = 0, readfds = None, writefds = None, exceptfds = None, timeout = None, sigset = None\<rparr>
       ?s = State s'"
    "trace s' = trace ?s @ [(Emacs_thread, Lock Queue_mutex), (Emacs_thread, Unlock Queue_mutex),
                           (Emacs_thread, Return 1)]"
    by blast
  then show ?thesis
    using h by (simp add: returned_def return_value_def)
qed

text \<open>
  Claim C10. The early return of \<^verbatim>\<open>android_select\<close> changes nothing but the trace: the
  stored arguments of \<^verbatim>\<open>pselect\<close>, \<^verbatim>\<open>android_pselect_completed\<close>, \<^verbatim>\<open>android_pselect_rc\<close>,
  the semaphore, the heap with the queue, \<^verbatim>\<open>num_events\<close> and the pending signal are as
  before, the queue mutex is free again, and none of the new actions is a
  \<^verbatim>\<open>pthread_kill\<close>.
\<close>

theorem select_queued_frame:
  assumes "emacs s = E_idle" and "mutex s = None" and "0 < num_events s"
  shows "\<exists>s'. android_select args s = State s' \<and>
     android_pselect_args s' = android_pselect_args s \<and>
     android_pselect_completed s' = android_pselect_completed s \<and>
     android_pselect_rc s' = android_pselect_rc s \<and>
     android_pselect_sem s' = android_pselect_sem s \<and>
     heap s' = heap s \<and> num_events s' = num_events s \<and>
     sigusr2_pending s' = sigusr2_pending s \<and>
     (\<forall>sig. (Emacs_thread, Kill sig) \<notin> set (drop (length (trace s)) (trace s'))) \<and>
     s' = s\<lparr>trace := trace s'\<rparr>"
  using assms by (simp add: android_select_def prim_defs)

theorem select_queued_frame_witness:
  "emacs (state_after [Write_event 0 (Some 1) (Key_release 1 0 0 65)]) = E_idle \<and>
   mutex (state_after [Write_event 0 (Some 1) (Key_release 1 0 0 65)]) = None \<and>
   0 < num_events (state_after [Write_event 0 (Some 1) (Key_release 1 0 0 65)]) \<and>
   (\<exists>s'. android_select
       \<lparr>nfds = 3, readfds = Some 7, writefds = None, exceptfds = None, timeout = None, sigset = None\<rparr>
       (state_after [Write_event 0 (Some 1) (Key_release 1 0 0 65)]) = State s' \<and>
      android_pselect_args s' =
       \<lparr>nfds = 0, readfds = None, writefds = None, exceptfds = None, timeout = None, sigset = None\<rparr> \<and>
      num_events s' = 1)"
proof -
  let ?s = "state_after [Write_event 0 (Some 1) (Key_release 1 0 0 65)]"
  have h: "emacs ?s = E_idle" "mutex ?s = None" "0 < num_events ?s"
    by (simp_all add: run_defs)
  have v: "android_pselect_args ?s =
       \<lparr>nfds = 0, readfds = None, writefds = None, exceptfds = None, timeout = None, sigset = None\<rparr>"
      "num_events ?s = 1"
    by (simp_all add: run_defs)
  from select_queued_frame [OF h] show ?thesis
    using h v by metis
qed

subsection \<open>Reading and writing the heap\<close>

lemma get_next_upd:
  "get_next (h(p \<mapsto> c)) q = (if q = p then next_ptr c else get_next h q)"
  by (simp add: get_next_def)

lemma get_last_upd:
  "get_last (h(p \<mapsto> c)) q = (if q = p then last_ptr c else get_last h q)"
  by (simp add: get_last_def)

lemma get_event_upd:
  "get_event (h(p \<mapsto> c)) q = (if q = p then event c else get_event h q)"
  by (simp add: get_event_def)

lemma set_next_Some:
  assumes "h p \<noteq> None"
  shows "\<exists>h'. set_next h p v = Some h' \<and>
     get_next h' = (get_next h)(p := Some v) \<and> get_last h' = get_last h \<and>
     get_event h' = get_event h \<and> (\<forall>a. (h' a = None) = (h a = None))"
proof -
  from assms obtain c where c: "h p = Some c" by auto
  let ?h = "h(p \<mapsto> c\<lparr>next_ptr := Some v\<rparr>)"
  have "set_next h p v = Some ?h" using c by (simp add: set_next_def)
  moreover have "get_next ?h = (get_next h)(p := Some v)"
    by (auto simp: fun_eq_iff get_next_def)
  moreover have "get_last ?h = get_last h" "get_event ?h = get_event h"
    using c by (auto simp: fun_eq_iff get_last_def get_event_def)
  moreover have "\<forall>a. (?h a = None) = (h a = None)" using c by auto
  ultimately show ?thesis by blast
qed

lemma set_last_Some:
  assumes "h p \<noteq> None"
  shows "\<exists>h'. set_last h p v = Some h' \<and>
     get_last h' = (get_last h)(p := Some v) \<and> get_next h' = get_next h \<and>
     get_event h' = get_event h \<and> (\<forall>a. (h' a = None) = (h a = None))"
proof -
  from assms obtain c where c: "h p = Some c" by auto
  let ?h = "h(p \<mapsto> c\<lparr>last_ptr := Some v\<rparr>)"
  have "set_last h p v = Some ?h" using c by (simp add: set_last_def)
  moreover have "get_last ?h = (get_last h)(p := Some v)"
    by (auto simp: fun_eq_iff get_last_def)
  moreover have "get_next ?h = get_next h" "get_event ?h = get_event h"
    using c by (auto simp: fun_eq_iff get_next_def get_event_def)
  moreover have "\<forall>a. (?h a = None) = (h a = None)" using c by auto
  ultimately show ?thesis by blast
qed

lemma set_event_Some:
  assumes "h p \<noteq> None"
  shows "\<exists>h'. set_event h p v = Some h' \<and>
     get_event h' = (get_event h)(p := Some v) \<and> get_next h' = get_next h \<and>
     get_last h' = get_last h \<and> (\<forall>a. (h' a = None) = (h a = None))"
proof -
  from assms obtain c where c: "h p = Some c" by auto
  let ?h = "h(p \<mapsto> c\<lparr>event := Some v\<rparr>)"
  have "set_event h p v = Some ?h" using c by (simp add: set_event_def)
  moreover have "get_event ?h = (get_event h)(p := Some v)"
    by (auto simp: fun_eq_iff get_event_def)
  moreover have "get_next ?h = get_next h" "get_last ?h = get_last h"
    using c by (auto simp: fun_eq_iff get_next_def get_last_def)
  moreover have "\<forall>a. (?h a = None) = (h a = None)" using c by auto
  ultimately show ?thesis by blast
qed

lemma get_next_live: "get_next h a = Some b \<Longrightarrow> h a \<noteq> None"
  by (auto simp: get_next_def split: option.splits)

lemma get_last_live: "get_last h a = Some b \<Longrightarrow> h a \<noteq> None"
  by (auto simp: get_last_def split: option.splits)

lemma get_free:
  "a \<noteq> c \<Longrightarrow> get_next (h(c := None)) a = get_next h a"
  "a \<noteq> c \<Longrightarrow> get_last (h(c := None)) a = get_last h a"
  "a \<noteq> c \<Longrightarrow> get_event (h(c := None)) a = get_event h a"
  by (simp_all add: get_next_def get_last_def get_event_def)

subsection \<open>Doubly linked segments\<close>

lemma dl_frame:
  "(\<forall>a \<in> set as. get_next h' a = get_next h a \<and> get_last h' a = get_last h a) \<Longrightarrow>
   dl h' p x as y = dl h p x as y"
  by (induction as arbitrary: p x) (auto split: option.splits)

lemma dl_append:
  "dl h p x (as @ bs) y = (\<exists>m. dl h p x as m \<and> dl h (last (p # as)) m bs y)"
  by (induction as arbitrary: p x) (auto split: option.splits)

lemma dl_live: "dl h p x as y \<Longrightarrow> a \<in> set as \<Longrightarrow> h a \<noteq> None"
  by (induction as arbitrary: p x) (auto split: option.splits dest: get_last_live)

lemma dl_snoc:
  "dl h p x (as @ [a]) y =
   (dl h p x as a \<and> get_last h a = Some (last (p # as)) \<and> get_next h a = Some y)"
  by (auto simp: dl_append split: option.splits)

lemma dl_nodes_from:
  "dl h p x as events_addr \<Longrightarrow> events_addr \<notin> set as \<Longrightarrow> nodes_from h x = Some as"
proof (induction as arbitrary: p x)
  case Nil
  then show ?case by (simp add: nodes_from.simps)
next
  case (Cons a as)
  then obtain b where b: "x = a" "get_next h a = Some b" "dl h a b as events_addr"
    by (auto split: option.splits)
  with Cons have "nodes_from h b = Some as" by auto
  with b Cons.prems show ?case
    by (subst nodes_from.simps) auto
qed

lemma ring_live_entries:
  "ring (heap s) as \<Longrightarrow> events_addr \<notin> set as \<Longrightarrow> live_entries s = Some as"
  by (auto simp: ring_def live_entries_def dl_nodes_from split: option.splits)

lemma ring_unique:
  "ring h as \<Longrightarrow> events_addr \<notin> set as \<Longrightarrow> ring h bs \<Longrightarrow> events_addr \<notin> set bs \<Longrightarrow> as = bs"
  by (auto simp: ring_def split: option.splits dest!: dl_nodes_from)

subsection \<open>Linking and unlinking a container\<close>

lemma link_container_Some:
  assumes x: "get_next h events_addr = Some x"
    and live: "h c \<noteq> None" "h x \<noteq> None"
    and neq: "c \<noteq> events_addr" "c \<noteq> x"
  shows "\<exists>h'. link_container h c e = Some h' \<and>
     get_next h' = (get_next h)(c := Some x, events_addr := Some c) \<and>
     get_last h' = (get_last h)(c := Some events_addr, x := Some c) \<and>
     get_event h' = (get_event h)(c := Some e) \<and>
     (\<forall>a. (h' a = None) = (h a = None))"
proof -
  have s: "h events_addr \<noteq> None" using x by (rule get_next_live)
  from set_next_Some [of h c x] live(1) obtain h1 where h1:
    "set_next h c x = Some h1" "get_next h1 = (get_next h)(c := Some x)"
    "get_last h1 = get_last h" "get_event h1 = get_event h" "\<forall>a. (h1 a = None) = (h a = None)"
    by blast
  have "h1 c \<noteq> None" using h1(5) live by simp
  with set_last_Some [of h1 c events_addr] obtain h2 where h2:
    "set_last h1 c events_addr = Some h2" "get_last h2 = (get_last h1)(c := Some events_addr)"
    "get_next h2 = get_next h1" "get_event h2 = get_event h1" "\<forall>a. (h2 a = None) = (h1 a = None)"
    by blast
  have n: "get_next h2 c = Some x" using h2(3) h1(2) by simp
  have "h2 x \<noteq> None" using h2(5) h1(5) live by simp
  with set_last_Some [of h2 x c] obtain h3 where h3:
    "set_last h2 x c = Some h3" "get_last h3 = (get_last h2)(x := Some c)"
    "get_next h3 = get_next h2" "get_event h3 = get_event h2" "\<forall>a. (h3 a = None) = (h2 a = None)"
    by blast
  have l: "get_last h3 c = Some events_addr" using h3(2) h2(2) neq by simp
  have "h3 events_addr \<noteq> None" using h3(5) h2(5) h1(5) s by simp
  with set_next_Some [of h3 events_addr c] obtain h4 where h4:
    "set_next h3 events_addr c = Some h4" "get_next h4 = (get_next h3)(events_addr := Some c)"
    "get_last h4 = get_last h3" "get_event h4 = get_event h3" "\<forall>a. (h4 a = None) = (h3 a = None)"
    by blast
  have "h4 c \<noteq> None" using h4(5) h3(5) h2(5) h1(5) live by simp
  with set_event_Some [of h4 c e] obtain h5 where h5:
    "set_event h4 c e = Some h5" "get_event h5 = (get_event h4)(c := Some e)"
    "get_next h5 = get_next h4" "get_last h5 = get_last h4" "\<forall>a. (h5 a = None) = (h4 a = None)"
    by blast
  have "link_container h c e = Some h5"
    using x h1(1) h2(1) n h3(1) l h4(1) h5(1) by (simp add: link_container_def)
  moreover have "get_next h5 = (get_next h)(c := Some x, events_addr := Some c)"
    using h5(3) h4(2) h3(3) h2(3) h1(2) by simp
  moreover have "get_last h5 = (get_last h)(c := Some events_addr, x := Some c)"
    using h5(4) h4(3) h3(2) h2(2) h1(3) by simp
  moreover have "get_event h5 = (get_event h)(c := Some e)"
    using h5(2) h4(4) h3(4) h2(4) h1(4) by simp
  moreover have "\<forall>a. (h5 a = None) = (h a = None)"
    using h5(5) h4(5) h3(5) h2(5) h1(5) by simp
  ultimately show ?thesis by blast
qed

lemma unlink_container_Some:
  assumes l: "get_last h c = Some l" and n: "get_next h c = Some n"
    and live: "h l \<noteq> None" "h n \<noteq> None"
    and ev: "get_event h c = Some ev"
  shows "\<exists>h'. unlink_container h c = Some (h', ev) \<and>
     get_next h' = (get_next h)(l := Some n) \<and>
     get_last h' = (get_last h)(n := Some l) \<and>
     get_event h' = get_event h \<and>
     (\<forall>a. (h' a = None) = (h a = None))"
proof -
  from set_next_Some [of h l n] live(1) obtain h1 where h1:
    "set_next h l n = Some h1" "get_next h1 = (get_next h)(l := Some n)"
    "get_last h1 = get_last h" "get_event h1 = get_event h" "\<forall>a. (h1 a = None) = (h a = None)"
    by blast
  have n1: "get_next h1 c = Some n" using h1(2) n by simp
  have l1: "get_last h1 c = Some l" using h1(3) l by simp
  have "h1 n \<noteq> None" using h1(5) live by simp
  with set_last_Some [of h1 n l] obtain h2 where h2:
    "set_last h1 n l = Some h2" "get_last h2 = (get_last h1)(n := Some l)"
    "get_next h2 = get_next h1" "get_event h2 = get_event h1" "\<forall>a. (h2 a = None) = (h1 a = None)"
    by blast
  have e2: "get_event h2 c = Some ev" using h2(4) h1(4) ev by simp
  have "unlink_container h c = Some (h2, ev)"
    using l n h1(1) n1 l1 h2(1) e2 by (simp add: unlink_container_def)
  moreover have "get_next h2 = (get_next h)(l := Some n)" using h2(3) h1(2) by simp
  moreover have "get_last h2 = (get_last h)(n := Some l)" using h2(2) h1(3) by simp
  moreover have "get_event h2 = get_event h" using h2(4) h1(4) by simp
  moreover have "\<forall>a. (h2 a = None) = (h a = None)" using h2(5) h1(5) by simp
  ultimately show ?thesis by blast
qed

subsection \<open>The ring under insertion and removal\<close>

lemma ring_head_live: "ring h as \<Longrightarrow> h events_addr \<noteq> None"
  by (auto simp: ring_def split: option.splits dest: get_next_live)

lemma ring_empty_last: "ring h [] \<Longrightarrow> get_last h events_addr = Some events_addr"
  by (auto simp: ring_def split: option.splits)

lemma ring_last: "ring h as \<Longrightarrow> as \<noteq> [] \<Longrightarrow> get_last h events_addr = Some (last as)"
  by (auto simp: ring_def split: option.splits)

lemma ring_link:
  assumes r: "ring h as" and s: "events_addr \<notin> set as" and dist: "distinct as"
    and c: "h c \<noteq> None" "c \<notin> set as" "c \<noteq> events_addr"
  shows "\<exists>h'. link_container h c e = Some h' \<and> ring h' (c # as) \<and>
     get_event h' = (get_event h)(c := Some e) \<and> (\<forall>a. (h' a = None) = (h a = None))"
proof -
  from r obtain x where x: "get_next h events_addr = Some x"
    and d: "dl h events_addr x as events_addr"
    and l: "get_last h events_addr = Some (last (events_addr # as))"
    by (auto simp: ring_def split: option.splits)
  have xl: "h x \<noteq> None \<and> c \<noteq> x"
  proof (cases as)
    case Nil
    with d have "x = events_addr" by simp
    then show ?thesis using x c by (auto dest: get_next_live)
  next
    case (Cons a bs)
    with d have "x = a" by simp
    then show ?thesis using Cons c d dl_live [OF d, of a] by auto
  qed
  from link_container_Some [OF x c(1) _ c(3), of e] xl obtain h' where h':
    "link_container h c e = Some h'"
    "get_next h' = (get_next h)(c := Some x, events_addr := Some c)"
    "get_last h' = (get_last h)(c := Some events_addr, x := Some c)"
    "get_event h' = (get_event h)(c := Some e)"
    "\<forall>a. (h' a = None) = (h a = None)"
    by blast
  have "ring h' (c # as)"
  proof (cases as)
    case Nil
    with d have "x = events_addr" by simp
    then show ?thesis using Nil h' c by (simp add: ring_def)
  next
    case (Cons a bs)
    with d obtain b where b: "x = a" "get_last h a = Some events_addr"
      "get_next h a = Some b" "dl h a b bs events_addr"
      by (auto split: option.splits)
    have na: "a \<noteq> c" "a \<noteq> events_addr" using Cons c s by auto
    have "dl h' a b bs events_addr = dl h a b bs events_addr"
    proof (rule dl_frame, intro ballI)
      fix y assume "y \<in> set bs"
      then have "y \<noteq> c" "y \<noteq> events_addr" using Cons c s by auto
      moreover have "y \<noteq> a" using \<open>y \<in> set bs\<close> Cons dist by auto
      ultimately show "get_next h' y = get_next h y \<and> get_last h' y = get_last h y"
        using h' b(1) by simp
    qed
    then show ?thesis
      using Cons h' c b na l s by (simp add: ring_def)
  qed
  with h' show ?thesis by blast
qed

lemma ring_unlink:
  assumes r: "ring h as" and s: "events_addr \<notin> set as" and dist: "distinct as"
    and ne: "as \<noteq> []" and ev: "get_event h (last as) = Some ev"
  shows "\<exists>h'. unlink_container h (last as) = Some (h', ev) \<and>
     ring (h'(last as := None)) (butlast as) \<and>
     (\<forall>a. a \<noteq> last as \<longrightarrow> get_event (h'(last as := None)) a = get_event h a) \<and>
     (\<forall>a. a \<noteq> last as \<longrightarrow> ((h'(last as := None)) a = None) = (h a = None))"
proof -
  from ne obtain bs c where as: "as = bs @ [c]"
    by (metis rev_exhaust)
  from r obtain x where x: "get_next h events_addr = Some x"
    and d: "dl h events_addr x as events_addr"
    and l: "get_last h events_addr = Some (last (events_addr # as))"
    by (auto simp: ring_def split: option.splits)
  let ?l = "last (events_addr # bs)"
  from d as have d': "dl h events_addr x bs c" and cl: "get_last h c = Some ?l"
    and cn: "get_next h c = Some events_addr"
    by (simp_all add: dl_snoc)
  have hs: "h events_addr \<noteq> None" using x by (rule get_next_live)
  have hl: "h ?l \<noteq> None"
  proof (cases "bs = []")
    case True then show ?thesis using hs by simp
  next
    case False
    then have "last bs \<in> set bs" by simp
    then show ?thesis using False dl_live [OF d', of "last bs"] by simp
  qed
  have cneq: "c \<noteq> events_addr" "c \<notin> set bs" using as s dist by auto
  have lneq: "?l \<noteq> c" using cneq by (cases "bs = []") auto
  from unlink_container_Some [OF cl cn hl hs, of ev] ev as obtain h' where h':
    "unlink_container h c = Some (h', ev)"
    "get_next h' = (get_next h)(?l := Some events_addr)"
    "get_last h' = (get_last h)(events_addr := Some ?l)"
    "get_event h' = get_event h"
    "\<forall>a. (h' a = None) = (h a = None)"
    by auto
  let ?h = "h'(c := None)"
  have gn: "\<And>a. a \<noteq> c \<Longrightarrow> get_next ?h a = ((get_next h)(?l := Some events_addr)) a"
    and gl: "\<And>a. a \<noteq> c \<Longrightarrow> get_last ?h a = ((get_last h)(events_addr := Some ?l)) a"
    and ge: "\<And>a. a \<noteq> c \<Longrightarrow> get_event ?h a = get_event h a"
    using h' by (simp_all add: get_free)
  have "ring ?h bs"
  proof (cases bs rule: rev_cases)
    case Nil
    then show ?thesis using gn [of events_addr] gl [of events_addr] cneq
      by (simp add: ring_def)
  next
    case (snoc bs' b)
    with d' have db: "dl h events_addr x bs' b" and bl: "get_last h b = Some (last (events_addr # bs'))"
      and bn: "get_next h b = Some c"
      by (simp_all add: dl_snoc)
    have b: "b \<noteq> c" "b \<noteq> events_addr" "b \<notin> set bs'" using snoc as s dist by auto
    have "dl ?h events_addr x bs' b = dl h events_addr x bs' b"
    proof (rule dl_frame, intro ballI)
      fix y assume y: "y \<in> set bs'"
      then have "y \<noteq> c" "y \<noteq> events_addr" "y \<noteq> b" using snoc as s dist by auto
      then show "get_next ?h y = get_next h y \<and> get_last ?h y = get_last h y"
        using gn [of y] gl [of y] snoc by simp
    qed
    with db have "dl ?h events_addr x bs' b" by simp
    moreover have "get_last ?h b = Some (last (events_addr # bs'))"
      using gl [of b] b bl by simp
    moreover have "get_next ?h b = Some events_addr"
      using gn [of b] b snoc by simp
    ultimately have "dl ?h events_addr x bs events_addr"
      using snoc by (simp add: dl_snoc)
    moreover have "get_next ?h events_addr = Some x"
      using gn [of events_addr] cneq b snoc x by simp
    moreover have "get_last ?h events_addr = Some (last (events_addr # bs))"
      using gl [of events_addr] cneq by simp
    ultimately show ?thesis by (simp add: ring_def)
  qed
  moreover have "\<forall>a. a \<noteq> c \<longrightarrow> get_event ?h a = get_event h a" using ge by simp
  moreover have "\<forall>a. a \<noteq> c \<longrightarrow> (?h a = None) = (h a = None)" using h'(5) by simp
  ultimately show ?thesis using h'(1) as by auto
qed

subsection \<open>The invariant of the queue\<close>

lemma inserted_append [simp]: "inserted (tr @ tr') = inserted tr @ inserted tr'"
  by (induction tr rule: inserted.induct) auto

lemma removed_append [simp]: "removed (tr @ tr') = removed tr @ removed tr'"
  by (induction tr rule: removed.induct) auto

lemma queue_inv_frame:
  assumes "queue_inv s as es" and "heap s' = heap s" and "num_events s' = num_events s"
    and "\<forall>p. container_of (producers s' p) = container_of (producers s p)"
    and "inserted (trace s') = inserted (trace s)"
    and "removed (trace s') = removed (trace s)"
  shows "queue_inv s' as es"
  using assms by (simp add: queue_inv_def)

lemma queue_inv_init: "queue_inv android_init_events [] []"
  by (simp add: queue_inv_def android_init_events_def ring_def get_next_def get_last_def)

lemma queue_inv_length: "queue_inv s as es \<Longrightarrow> length es = length as"
proof -
  assume "queue_inv s as es"
  then have "map (get_event (heap s)) as = map Some (rev es)" by (simp add: queue_inv_def)
  then have "length (map (get_event (heap s)) as) = length (map Some (rev es))" by simp
  then show ?thesis by simp
qed

lemma signal_write_container:
  "container_of (producers (pthread_cond_signal t Write_var s) p) = container_of (producers s p)"
  by (simp add: pthread_cond_signal_def emit_def split: list.splits producer_pc.splits)

lemma signal_write_frame:
  "heap (pthread_cond_signal t cv s) = heap s"
  "num_events (pthread_cond_signal t cv s) = num_events s"
  "trace (pthread_cond_signal t cv s) = trace s @ [(t, Signal cv)]"
  by (simp_all add: pthread_cond_signal_def emit_def
      split: cond_id.splits list.splits producer_pc.splits emacs_pc.splits)

lemma signal_read_producers:
  "producers (pthread_cond_signal t Read_var s) = producers s"
  by (simp add: pthread_cond_signal_def emit_def split: emacs_pc.splits)

lemma put_inv:
  assumes inv: "queue_inv s as es"
    and c: "heap s c \<noteq> None" "c \<notin> set as" "c \<noteq> events_addr"
    and other: "\<forall>q. q \<noteq> p \<longrightarrow> container_of (producers s q) \<noteq> Some c"
  shows "\<exists>s'. android_write_event_put p c e s = State s' \<and> queue_inv s' (c # as) (es @ [e]) \<and>
     num_events s' = num_events s + 1"
proof -
  from inv have r: "ring (heap s) as" "events_addr \<notin> set as" "distinct as"
    by (simp_all add: queue_inv_def)
  from ring_link [OF r c, of e] obtain h' where h':
    "link_container (heap s) c e = Some h'" "ring h' (c # as)"
    "get_event h' = (get_event (heap s))(c := Some e)" "\<forall>a. (h' a = None) = (heap s a = None)"
    by blast
  let ?s = "(pthread_mutex_unlock (Producer p) Queue_mutex
       (pthread_cond_signal (Producer p) Read_var
         (emit (Producer p) (Inserted e) (s\<lparr>heap := h', num_events := num_events s + 1\<rparr>))))
       \<lparr>producers := (producers s)(p := P_idle)\<rparr>"
  have eq: "android_write_event_put p c e s = State ?s"
    using h'(1) by (simp add: android_write_event_put_def Let_def pthread_mutex_unlock_def
        emit_def signal_read_producers [unfolded emit_def])
  have f: "heap ?s = h'" "num_events ?s = num_events s + 1"
    "trace ?s = trace s @ [(Producer p, Inserted e), (Producer p, Signal Read_var),
       (Producer p, Unlock Queue_mutex)]"
    "producers ?s = (producers s)(p := P_idle)"
    by (simp_all add: pthread_mutex_unlock_def signal_write_frame emit_def)
  have m: "map (get_event h') as = map (get_event (heap s)) as"
    using h'(3) c(2) by (auto simp: map_eq_conv)
  have "queue_inv ?s (c # as) (es @ [e])"
    unfolding queue_inv_def f
    using inv h' c other m by (auto simp: queue_inv_def)
  with eq f show ?thesis by auto
qed

lemma take_empty:
  assumes inv: "queue_inv s [] es"
  shows "android_next_event_take s = Crash Assertion_failed"
proof -
  from inv have "ring (heap s) []" by (simp add: queue_inv_def)
  then have "get_last (heap s) events_addr = Some events_addr" by (rule ring_empty_last)
  then show ?thesis by (simp add: android_next_event_take_def)
qed

lemma take_inv:
  assumes inv: "queue_inv s as es" and ne: "as \<noteq> []"
  shows "\<exists>s'. android_next_event_take s = State s' \<and> queue_inv s' (butlast as) (tl es) \<and>
     num_events s' = num_events s - 1 \<and> es \<noteq> [] \<and>
     removed (trace s') = removed (trace s) @ [hd es]"
proof -
  from inv have r: "ring (heap s) as" "events_addr \<notin> set as" "distinct as"
    and m: "map (get_event (heap s)) as = map Some (rev es)"
    by (simp_all add: queue_inv_def)
  have len: "length es = length as" using inv by (rule queue_inv_length)
  with ne have es: "es \<noteq> []" by auto
  let ?c = "last as"
  have cs: "?c \<noteq> events_addr" using ne r(2) last_in_set by metis
  have "last (map (get_event (heap s)) as) = last (map Some (rev es))" using m by simp
  then have ev: "get_event (heap s) ?c = Some (hd es)"
    using ne es by (simp add: last_map last_rev)
  from ring_unlink [OF r ne ev] obtain h' where h':
    "unlink_container (heap s) ?c = Some (h', hd es)"
    "ring (h'(?c := None)) (butlast as)"
    "\<forall>a. a \<noteq> ?c \<longrightarrow> get_event (h'(?c := None)) a = get_event (heap s) a"
    "\<forall>a. a \<noteq> ?c \<longrightarrow> ((h'(?c := None)) a = None) = (heap s a = None)"
    by blast
  let ?s1 = "(emit Emacs_thread (Removed (hd es)) (s\<lparr>heap := h'\<rparr>))
      \<lparr>num_events := num_events s - 1, heap := h'(?c := None)\<rparr>"
  let ?s = "(pthread_mutex_unlock Emacs_thread Queue_mutex
       (pthread_cond_signal Emacs_thread Write_var ?s1))\<lparr>emacs := E_idle\<rparr>"
  have eq: "android_next_event_take s = State ?s"
    using ring_last [OF r(1) ne] cs h'(1)
    by (simp add: android_next_event_take_def Let_def emit_def)
  have f: "heap ?s = h'(?c := None)" "num_events ?s = num_events s - 1"
    "trace ?s = trace s @ [(Emacs_thread, Removed (hd es)), (Emacs_thread, Signal Write_var),
       (Emacs_thread, Unlock Queue_mutex)]"
    "\<And>p. container_of (producers ?s p) = container_of (producers s p)"
    by (simp_all add: pthread_mutex_unlock_def signal_write_frame signal_write_container emit_def)
  have bl: "\<And>a. a \<in> set (butlast as) \<Longrightarrow> a \<noteq> ?c"
    using r(3) ne by (metis append_butlast_last_id distinct_butlast not_distinct_conv_prefix
        in_set_conv_decomp distinct_append disjoint_iff list.set_intros(1))
  have m': "map (get_event (h'(?c := None))) (butlast as) = map Some (rev (tl es))"
  proof -
    have "map (get_event (h'(?c := None))) (butlast as) = map (get_event (heap s)) (butlast as)"
      using h'(3) bl by (auto simp: map_eq_conv)
    also have "\<dots> = butlast (map (get_event (heap s)) as)" by (simp add: map_butlast)
    also have "\<dots> = butlast (map Some (rev es))" using m by simp
    also have "\<dots> = map Some (rev (tl es))"
      using es by (cases es) (simp_all add: map_butlast [symmetric])
    finally show ?thesis .
  qed
  have ins: "inserted (trace s) = removed (trace s) @ es" using inv by (simp add: queue_inv_def)
  have prod: "\<forall>p c. container_of (producers s p) = Some c \<longrightarrow>
        heap s c \<noteq> None \<and> c \<notin> set as \<and> c \<noteq> events_addr \<and>
        (\<forall>q. q \<noteq> p \<longrightarrow> container_of (producers s q) \<noteq> Some c)"
    using inv by (simp add: queue_inv_def)
  have "queue_inv ?s (butlast as) (tl es)"
    unfolding queue_inv_def f
  proof (intro conjI allI impI)
    show "ring (h'(?c := None)) (butlast as)" by (rule h'(2))
    show "distinct (butlast as)" using r(3) by (rule distinct_butlast)
    show "events_addr \<notin> set (butlast as)" using r(2) by (meson in_set_butlastD)
    show "num_events s - 1 = int (length (butlast as))"
      using inv ne by (cases as) (simp_all add: queue_inv_def)
    show "map (get_event (h'(?c := None))) (butlast as) = map Some (rev (tl es))" by (rule m')
    show "inserted (trace s @ [(Emacs_thread, Removed (hd es)), (Emacs_thread, Signal Write_var),
       (Emacs_thread, Unlock Queue_mutex)]) =
      removed (trace s @ [(Emacs_thread, Removed (hd es)), (Emacs_thread, Signal Write_var),
       (Emacs_thread, Unlock Queue_mutex)]) @ tl es"
      using ins es by simp
  next
    fix p c assume pc: "container_of (producers s p) = Some c"
    with prod have c: "heap s c \<noteq> None" "c \<notin> set as" "c \<noteq> events_addr"
      "\<forall>q. q \<noteq> p \<longrightarrow> container_of (producers s q) \<noteq> Some c" by auto
    have "c \<noteq> ?c" using c(2) ne by auto
    then show "(h'(?c := None)) c \<noteq> None" using h'(4) c(1) by simp
    show "c \<notin> set (butlast as)" using c(2) by (meson in_set_butlastD)
    show "c \<noteq> events_addr" by (rule c(3))
    fix q assume "q \<noteq> p"
    then show "container_of (producers s q) \<noteq> Some c" using c(4) by simp
  qed
  with eq f es show ?thesis by auto
qed

lemma same_queue_inv: "queue_inv s as es \<Longrightarrow> same_queue s s' \<Longrightarrow> queue_inv s' as es"
  by (auto simp: same_queue_def intro: queue_inv_frame)

lemma same_queue_pending: "android_pending s = State s' \<Longrightarrow> same_queue s s'"
  by (auto simp: same_queue_def android_pending_def prim_defs Let_def split: if_splits)

lemma same_queue_select: "android_select args s = State s' \<Longrightarrow> same_queue s s'"
  by (auto simp: same_queue_def android_select_def android_select_arm_def prim_defs Let_def
      split: if_splits)

lemma same_queue_select_locked: "android_select_locked s = State s' \<Longrightarrow> same_queue s s'"
  by (auto simp: same_queue_def android_select_locked_def android_select_arm_def prim_defs Let_def
      split: if_splits emacs_pc.splits)

lemma same_queue_select_resume: "android_select_resume s = State s' \<Longrightarrow> same_queue s s'"
  by (auto simp: same_queue_def android_select_resume_def prim_defs Let_def split: if_splits)

lemma same_queue_select_join: "android_select_join s = State s' \<Longrightarrow> same_queue s s'"
  by (auto simp: same_queue_def android_select_join_def prim_defs Let_def split: if_splits)

lemma same_queue_select_join_interrupted:
  "android_select_join_interrupted s = State s' \<Longrightarrow> same_queue s s'"
  by (auto simp: same_queue_def android_select_join_interrupted_def prim_defs Let_def
      split: if_splits)

lemma same_queue_sigwait: "select_thread_sigwait s = State s' \<Longrightarrow> same_queue s s'"
  by (auto simp: same_queue_def select_thread_sigwait_def prim_defs Let_def split: if_splits)

lemma same_queue_pselect: "select_thread_pselect s = State s' \<Longrightarrow> same_queue s s'"
  by (auto simp: same_queue_def select_thread_pselect_def prim_defs Let_def split: if_splits)

lemma same_queue_store: "select_thread_store rc s = State s' \<Longrightarrow> same_queue s s'"
  by (auto simp: same_queue_def select_thread_store_def prim_defs Let_def split: if_splits)

lemma same_queue_post: "select_thread_post s = State s' \<Longrightarrow> same_queue s s'"
  by (auto simp: same_queue_def select_thread_post_def prim_defs Let_def split: if_splits)

lemma same_queue_notify: "select_thread_notify s = State s' \<Longrightarrow> same_queue s s'"
  by (auto simp: same_queue_def select_thread_notify_def prim_defs Let_def
      split: if_splits emacs_pc.splits)

lemma same_queue_spurious: "spurious_wakeup t s = State s' \<Longrightarrow> same_queue s s'"
  by (auto simp: same_queue_def spurious_wakeup_def
      split: tid.splits emacs_pc.splits producer_pc.splits)

lemma same_queue_wait_leave: "same_queue s (pthread_cond_wait_leave t cv s)"
  by (simp add: same_queue_def pthread_cond_wait_leave_def emit_def)

lemma same_queue_lock: "same_queue s (pthread_mutex_lock t m s)"
  by (simp add: same_queue_def pthread_mutex_lock_def emit_def split: mutex_id.splits)

lemma queue_inv_live:
  assumes "queue_inv s as es"
  shows "heap s events_addr \<noteq> None" and "\<And>a. a \<in> set as \<Longrightarrow> heap s a \<noteq> None"
    and "\<And>q c. container_of (producers s q) = Some c \<Longrightarrow> heap s c \<noteq> None"
proof -
  from assms have r: "ring (heap s) as" by (simp add: queue_inv_def)
  then show "heap s events_addr \<noteq> None" by (rule ring_head_live)
  from r obtain x where "dl (heap s) events_addr x as events_addr"
    by (auto simp: ring_def split: option.splits)
  then show "\<And>a. a \<in> set as \<Longrightarrow> heap s a \<noteq> None" by (rule dl_live)
  show "\<And>q c. container_of (producers s q) = Some c \<Longrightarrow> heap s c \<noteq> None"
    using assms by (simp add: queue_inv_def)
qed

lemma ring_alloc:
  assumes "ring h as" and "h c = None"
  shows "ring (h(c \<mapsto> cell)) as"
proof -
  from assms(1) obtain x where x: "get_next h events_addr = Some x"
    and d: "dl h events_addr x as events_addr"
    and l: "get_last h events_addr = Some (last (events_addr # as))"
    by (auto simp: ring_def split: option.splits)
  have c: "c \<noteq> events_addr" "c \<notin> set as"
  proof -
    show "c \<noteq> events_addr" using assms(2) x by (auto dest: get_next_live)
    show "c \<notin> set as"
    proof
      assume "c \<in> set as"
      then have "h c \<noteq> None" by (rule dl_live [OF d])
      with assms(2) show False by simp
    qed
  qed
  have "dl (h(c \<mapsto> cell)) events_addr x as events_addr = dl h events_addr x as events_addr"
    using c by (intro dl_frame) (auto simp: get_next_upd get_last_upd)
  then show ?thesis
    using x d l c by (simp add: ring_def get_next_upd get_last_upd)
qed

lemma alloc_fresh:
  assumes inv: "queue_inv s as es" and c: "heap s c = None"
  shows "c \<notin> set as" and "c \<noteq> events_addr"
    and "\<And>q. container_of (producers s q) \<noteq> Some c"
proof -
  note live = queue_inv_live [OF inv]
  show "c \<notin> set as"
  proof
    assume "c \<in> set as"
    then have "heap s c \<noteq> None" by (rule live(2))
    with c show False by simp
  qed
  show "c \<noteq> events_addr" using live(1) c by auto
  show "\<And>q. container_of (producers s q) \<noteq> Some c"
  proof
    fix q assume "container_of (producers s q) = Some c"
    then have "heap s c \<noteq> None" by (rule live(3))
    with c show False by simp
  qed
qed

lemma alloc_inv:
  assumes inv: "queue_inv s as es" and c: "heap s c = None"
  shows "queue_inv (s\<lparr>heap := (heap s)(c \<mapsto> cell)\<rparr>) as es"
proof -
  note f = alloc_fresh [OF inv c]
  have m: "map (get_event ((heap s)(c \<mapsto> cell))) as = map (get_event (heap s)) as"
    using f(1) by (auto simp: map_eq_conv get_event_upd)
  have r: "ring ((heap s)(c \<mapsto> cell)) as"
    using inv c by (auto simp: queue_inv_def intro: ring_alloc)
  have l: "\<And>a. heap s a \<noteq> None \<Longrightarrow> ((heap s)(c \<mapsto> cell)) a \<noteq> None"
    by simp
  show ?thesis
    using inv r l unfolding queue_inv_def by (simp add: m)
qed

lemma queue_inv_container:
  "queue_inv s as es \<Longrightarrow> container_of (producers s p) = Some c \<Longrightarrow>
   heap s c \<noteq> None \<and> c \<notin> set as \<and> c \<noteq> events_addr \<and>
   (\<forall>q. q \<noteq> p \<longrightarrow> container_of (producers s q) \<noteq> Some c)"
  unfolding queue_inv_def by blast

lemma write_event_inv:
  assumes inv: "queue_inv s as es" and st: "android_write_event p m e s = State s'"
  shows "\<exists>as' es'. queue_inv s' as' es'"
proof (cases m)
  case None
  with st have "s' = s" by (simp add: android_write_event_def split: if_splits)
  with inv show ?thesis by blast
next
  case (Some c)
  with st have idle: "producers s p = P_idle" and fresh: "heap s c = None"
    by (auto simp: android_write_event_def split: if_splits)
  let ?cell = "\<lparr>next_ptr = None, last_ptr = None, event = None\<rparr> :: 'a android_event_container"
  let ?s1 = "s\<lparr>heap := (heap s)(c \<mapsto> ?cell)\<rparr>"
  let ?s2 = "pthread_mutex_lock (Producer p) Queue_mutex ?s1"
  note a = alloc_inv [OF inv fresh, of ?cell] alloc_fresh [OF inv fresh]
  have inv2: "queue_inv ?s2 as es"
    using a(1) same_queue_lock by (rule same_queue_inv)
  have f2: "heap ?s2 = heap ?s1" "producers ?s2 = producers s" "num_events ?s2 = num_events s"
    "trace ?s2 = trace s @ [(Producer p, Lock Queue_mutex)]"
    by (simp_all add: pthread_mutex_lock_def emit_def)
  show ?thesis
  proof (cases "1024 \<le> num_events s")
    case True
    let ?s3 = "pthread_cond_wait_enter (Producer p) Write_var
        (?s2\<lparr>write_var := write_var ?s2 @ [p], producers := (producers ?s2)(p := P_blocked c e)\<rparr>)"
    have "s' = ?s3"
      using st Some True idle fresh by (simp add: android_write_event_def Let_def f2 split: if_splits)
    moreover have "queue_inv ?s3 as es"
      using inv2 a(2,3,4) idle
      by (auto simp: queue_inv_def pthread_cond_wait_enter_def emit_def f2)
    ultimately show ?thesis by blast
  next
    case False
    have "android_write_event_put p c e ?s2 = State s'"
      using st Some False idle fresh by (simp add: android_write_event_def Let_def f2 split: if_splits)
    moreover from put_inv [OF inv2, of c p e] a(2,3,4) obtain t where
      "android_write_event_put p c e ?s2 = State t" "queue_inv t (c # as) (es @ [e])"
      by (auto simp: f2)
    ultimately show ?thesis by auto
  qed
qed

lemma write_event_resume_inv:
  assumes inv: "queue_inv s as es" and st: "android_write_event_resume p s = State s'"
  shows "\<exists>as' es'. queue_inv s' as' es'"
proof -
  from st obtain c e where w: "producers s p = P_woken c e"
    and put: "android_write_event_put p c e (pthread_cond_wait_leave (Producer p) Write_var s) = State s'"
    by (auto simp: android_write_event_resume_def split: producer_pc.splits if_splits)
  let ?s = "pthread_cond_wait_leave (Producer p) Write_var s"
  have inv': "queue_inv ?s as es" using inv same_queue_wait_leave by (rule same_queue_inv)
  have f: "heap ?s = heap s" "producers ?s = producers s"
    by (simp_all add: pthread_cond_wait_leave_def emit_def)
  have "container_of (producers s p) = Some c" using w by simp
  from queue_inv_container [OF inv this]
  have c: "heap s c \<noteq> None" "c \<notin> set as" "c \<noteq> events_addr"
    "\<forall>q. q \<noteq> p \<longrightarrow> container_of (producers s q) \<noteq> Some c"
    by simp_all
  from put_inv [OF inv', of c p e] c f obtain t where
    "android_write_event_put p c e ?s = State t" "queue_inv t (c # as) (es @ [e])"
    by auto
  with put show ?thesis by auto
qed

lemma next_event_take_inv:
  assumes inv: "queue_inv s as es" and st: "android_next_event_take s = State s'"
  shows "queue_inv s' (butlast as) (tl es)"
proof (cases "as = []")
  case True
  with inv take_empty st show ?thesis by fastforce
next
  case False
  from take_inv [OF inv False] st show ?thesis by auto
qed

lemma next_event_inv:
  assumes inv: "queue_inv s as es" and st: "android_next_event s = State s'"
  shows "\<exists>as' es'. queue_inv s' as' es'"
proof -
  let ?s = "pthread_mutex_lock Emacs_thread Queue_mutex s"
  have inv': "queue_inv ?s as es" using inv same_queue_lock by (rule same_queue_inv)
  show ?thesis
  proof (cases "num_events s = 0")
    case True
    then have "s' = pthread_cond_wait_enter Emacs_thread Read_var (?s\<lparr>emacs := E_next_blocked\<rparr>)"
      using st by (simp add: android_next_event_def Let_def pthread_mutex_lock_def emit_def
          split: if_splits)
    then have "same_queue s s'"
      by (simp add: same_queue_def prim_defs)
    with inv show ?thesis by (blast intro: same_queue_inv)
  next
    case False
    then have "android_next_event_take ?s = State s'"
      using st by (simp add: android_next_event_def Let_def pthread_mutex_lock_def emit_def
          split: if_splits)
    with inv' show ?thesis by (blast intro: next_event_take_inv)
  qed
qed

lemma next_event_resume_inv:
  assumes inv: "queue_inv s as es" and st: "android_next_event_resume s = State s'"
  shows "\<exists>as' es'. queue_inv s' as' es'"
proof -
  let ?s = "pthread_cond_wait_leave Emacs_thread Read_var s"
  have inv': "queue_inv ?s as es" using inv same_queue_wait_leave by (rule same_queue_inv)
  from st have "android_next_event_take ?s = State s'"
    by (simp add: android_next_event_resume_def split: if_splits)
  with inv' show ?thesis by (blast intro: next_event_take_inv)
qed

lemma step_inv:
  assumes inv: "queue_inv s as es" and st: "step l s = State s'"
  shows "\<exists>as' es'. queue_inv s' as' es'"
proof (cases l)
  case (Write_event p m e)
  with inv st show ?thesis by (auto intro: write_event_inv)
next
  case (Write_event_resume p)
  with inv st show ?thesis by (auto intro: write_event_resume_inv)
next
  case Next_event
  with inv st show ?thesis by (auto intro: next_event_inv)
next
  case Next_event_resume
  with inv st show ?thesis by (auto intro: next_event_resume_inv)
next
  case Pending
  with inv st show ?thesis by (auto intro: same_queue_inv same_queue_pending)
next
  case (Select args)
  with inv st show ?thesis by (auto intro: same_queue_inv same_queue_select)
next
  case Select_locked
  with inv st show ?thesis by (auto intro: same_queue_inv same_queue_select_locked)
next
  case Select_resume
  with inv st show ?thesis by (auto intro: same_queue_inv same_queue_select_resume)
next
  case Select_join
  with inv st show ?thesis by (auto intro: same_queue_inv same_queue_select_join)
next
  case Select_join_interrupted
  with inv st show ?thesis by (auto intro: same_queue_inv same_queue_select_join_interrupted)
next
  case Thread_sigwait
  with inv st show ?thesis by (auto intro: same_queue_inv same_queue_sigwait)
next
  case Thread_pselect
  with inv st show ?thesis by (auto intro: same_queue_inv same_queue_pselect)
next
  case (Thread_store rc)
  with inv st show ?thesis by (auto intro: same_queue_inv same_queue_store)
next
  case Thread_post
  with inv st show ?thesis by (auto intro: same_queue_inv same_queue_post)
next
  case Thread_notify
  with inv st show ?thesis by (auto intro: same_queue_inv same_queue_notify)
next
  case (Spurious t)
  with inv st show ?thesis by (auto intro: same_queue_inv same_queue_spurious)
qed

lemma run_inv:
  "queue_inv s as es \<Longrightarrow> run ls s = State s' \<Longrightarrow> \<exists>as' es'. queue_inv s' as' es'"
proof (induction ls arbitrary: s as es)
  case Nil
  then show ?case by auto
next
  case (Cons l ls)
  from Cons.prems(2) obtain t where t: "step l s = State t" "run ls t = State s'"
    by (auto split: outcome.splits)
  from step_inv [OF Cons.prems(1) t(1)] obtain as' es' where "queue_inv t as' es'" by blast
  from Cons.IH [OF this t(2)] show ?case .
qed

lemma reachable_inv:
  "run ls android_init_events = State s \<Longrightarrow> \<exists>as es. queue_inv s as es"
  using run_inv [OF queue_inv_init] by blast

lemma those_map_Some: "those (map Some xs) = Some xs"
  by (induction xs) auto

lemma queue_inv_live_entries: "queue_inv s as es \<Longrightarrow> live_entries s = Some as"
  by (auto simp: queue_inv_def intro: ring_live_entries)

lemma queue_inv_pending_events:
  assumes "queue_inv s as es"
  shows "pending_events s = Some es"
proof -
  from assms have "map (get_event (heap s)) as = map Some (rev es)" by (simp add: queue_inv_def)
  then have "rev (map (get_event (heap s)) as) = rev (map Some (rev es))" by simp
  then have "map (get_event (heap s)) (rev as) = map Some es" by (simp add: rev_map)
  then show ?thesis
    using queue_inv_live_entries [OF assms] by (simp add: pending_events_def those_map_Some)
qed

lemma run_state_after: "run ls android_init_events = State s \<Longrightarrow> state_after ls = s"
  by (simp add: state_after_def)

subsection \<open>The count and the order of the events\<close>

text \<open>
  Claim C6. In every state the program reaches from the state after
  \<^verbatim>\<open>android_init_events\<close>, whatever the threads do and however they are scheduled,
  \<^verbatim>\<open>num_events\<close> is the number of containers in the circular list other than the list
  head, found by walking the \<^verbatim>\<open>next\<close> pointers. It is also the number of insertions
  minus the number of removals so far: each insertion links in one container and adds
  one to the count, each removal unlinks one and subtracts one.
\<close>

theorem count_is_live_entries:
  assumes "run ls android_init_events = State s"
  shows "\<exists>as. live_entries s = Some as \<and> num_events s = int (length as) \<and>
     int (length as) = int (length (inserted (trace s))) - int (length (removed (trace s)))"
proof -
  from reachable_inv [OF assms] obtain as es where inv: "queue_inv s as es" by blast
  have "live_entries s = Some as" using inv by (rule queue_inv_live_entries)
  moreover have "num_events s = int (length as)" using inv by (simp add: queue_inv_def)
  moreover have "inserted (trace s) = removed (trace s) @ es" using inv by (simp add: queue_inv_def)
  then have "length (inserted (trace s)) = length (removed (trace s)) + length es" by simp
  then have "int (length as) = int (length (inserted (trace s))) - int (length (removed (trace s)))"
    using queue_inv_length [OF inv] by simp
  ultimately show ?thesis by blast
qed

theorem count_is_live_entries_witness:
  "run [Write_event 0 (Some 1) (Key_press 1 0 0 65), Write_event 1 (Some 2) (Key_release 1 1 0 65),
        Next_event, Write_event 0 (Some 1) (Configure_notify 1 2 0 0 80 24)] android_init_events
   = State (state_after
       [Write_event 0 (Some 1) (Key_press 1 0 0 65), Write_event 1 (Some 2) (Key_release 1 1 0 65),
        Next_event, Write_event 0 (Some 1) (Configure_notify 1 2 0 0 80 24)]) \<and>
   live_entries (state_after
       [Write_event 0 (Some 1) (Key_press 1 0 0 65), Write_event 1 (Some 2) (Key_release 1 1 0 65),
        Next_event, Write_event 0 (Some 1) (Configure_notify 1 2 0 0 80 24)]) = Some [1, 2] \<and>
   num_events (state_after
       [Write_event 0 (Some 1) (Key_press 1 0 0 65), Write_event 1 (Some 2) (Key_release 1 1 0 65),
        Next_event, Write_event 0 (Some 1) (Configure_notify 1 2 0 0 80 24)]) = 2"
proof -
  let ?ls = "[Write_event 0 (Some 1) (Key_press 1 0 0 65), Write_event 1 (Some 2) (Key_release 1 1 0 65),
        Next_event, Write_event 0 (Some 1) (Configure_notify 1 2 0 0 80 24)]"
  have "\<exists>s. run ?ls android_init_events = State s"
    by (simp add: run_defs)
  then obtain s where s: "run ?ls android_init_events = State s" by blast
  then have eq: "state_after ?ls = s" by (rule run_state_after)
  from count_is_live_entries [OF s] obtain as where
    as: "live_entries s = Some as" "num_events s = int (length as)" by blast
  have n: "num_events (state_after ?ls) = 2" by (simp add: run_defs)
  have "get_next (heap (state_after ?ls)) events_addr = Some 1"
    "get_next (heap (state_after ?ls)) 1 = Some 2"
    "get_next (heap (state_after ?ls)) 2 = Some events_addr"
    by (simp_all add: run_defs)
  then have "live_entries (state_after ?ls) = Some [1, 2]"
    by (simp add: live_entries_def nodes_from.simps events_addr_def)
  with s eq n show ?thesis by simp
qed

text \<open>
  Claim C5. In every reachable state the events removed so far, in the order of their
  removal, are the first of the events inserted so far, in the order of their
  insertion; the rest are the events in the queue, oldest first. So the queue is first
  in, first out. After writing the events A and B, two calls of \<^verbatim>\<open>android_next_event\<close>
  return A and then B.
\<close>

theorem queue_fifo:
  assumes "run ls android_init_events = State s"
  shows "\<exists>es. pending_events s = Some es \<and> inserted (trace s) = removed (trace s) @ es"
proof -
  from reachable_inv [OF assms] obtain as es where inv: "queue_inv s as es" by blast
  have "pending_events s = Some es" using inv by (rule queue_inv_pending_events)
  moreover have "inserted (trace s) = removed (trace s) @ es" using inv by (simp add: queue_inv_def)
  ultimately show ?thesis by blast
qed

theorem queue_fifo_witness:
  "run [Write_event 0 (Some 1) (Key_press 1 0 0 65), Write_event 1 (Some 2) (Key_release 1 1 0 65),
        Next_event, Next_event] android_init_events
   = State (state_after
       [Write_event 0 (Some 1) (Key_press 1 0 0 65), Write_event 1 (Some 2) (Key_release 1 1 0 65),
        Next_event, Next_event]) \<and>
   inserted (trace (state_after
       [Write_event 0 (Some 1) (Key_press 1 0 0 65), Write_event 1 (Some 2) (Key_release 1 1 0 65),
        Next_event, Next_event])) = [Key_press 1 0 0 65, Key_release 1 1 0 65] \<and>
   removed (trace (state_after
       [Write_event 0 (Some 1) (Key_press 1 0 0 65), Write_event 1 (Some 2) (Key_release 1 1 0 65),
        Next_event, Next_event])) = [Key_press 1 0 0 65, Key_release 1 1 0 65] \<and>
   pending_events (state_after
       [Write_event 0 (Some 1) (Key_press 1 0 0 65), Write_event 1 (Some 2) (Key_release 1 1 0 65),
        Next_event, Next_event]) = Some []"
proof -
  let ?ls = "[Write_event 0 (Some 1) (Key_press 1 0 0 65), Write_event 1 (Some 2) (Key_release 1 1 0 65),
        Next_event, Next_event]"
  have "\<exists>s. run ?ls android_init_events = State s"
    by (simp add: run_defs)
  then obtain s where s: "run ?ls android_init_events = State s" by blast
  then have eq: "state_after ?ls = s" by (rule run_state_after)
  have i: "inserted (trace (state_after ?ls)) = [Key_press 1 0 0 65, Key_release 1 1 0 65]"
    and r: "removed (trace (state_after ?ls)) = [Key_press 1 0 0 65, Key_release 1 1 0 65]"
    by (simp_all add: run_defs)
  from queue_fifo [OF s] obtain es where
    "pending_events s = Some es" "inserted (trace s) = removed (trace s) @ es" by blast
  with i r eq have "pending_events s = Some []" by simp
  with s eq i r show ?thesis by simp
qed

subsection \<open>The order of the select thread's loop\<close>

lemma phase_after_append [simp]:
  "phase_after ph (tr @ tr') = phase_after (phase_after ph tr) tr'"
  by (induction tr arbitrary: ph) auto

lemma order_put:
  "android_write_event_put p c e s = State s' \<Longrightarrow>
   loop_order (trace s') = loop_order (trace s) \<and> select_thread s' = select_thread s"
  by (auto simp: android_write_event_put_def prim_defs Let_def loop_order_def
      split: option.splits emacs_pc.splits)

lemma order_take:
  "android_next_event_take s = State s' \<Longrightarrow>
   loop_order (trace s') = loop_order (trace s) \<and> select_thread s' = select_thread s"
  by (auto simp: android_next_event_take_def prim_defs Let_def loop_order_def
      split: option.splits if_splits list.splits producer_pc.splits)

lemma order_write_event:
  "android_write_event p m e s = State s' \<Longrightarrow>
   loop_order (trace s') = loop_order (trace s) \<and> select_thread s' = select_thread s"
  by (auto simp: android_write_event_def android_write_event_put_def prim_defs Let_def loop_order_def
      split: option.splits if_splits emacs_pc.splits)

lemma order_write_event_resume:
  "android_write_event_resume p s = State s' \<Longrightarrow>
   loop_order (trace s') = loop_order (trace s) \<and> select_thread s' = select_thread s"
  by (auto simp: android_write_event_resume_def android_write_event_put_def prim_defs Let_def
      loop_order_def split: option.splits if_splits emacs_pc.splits producer_pc.splits)

lemma order_next_event:
  "android_next_event s = State s' \<Longrightarrow>
   loop_order (trace s') = loop_order (trace s) \<and> select_thread s' = select_thread s"
  by (auto simp: android_next_event_def android_next_event_take_def prim_defs Let_def loop_order_def
      split: option.splits if_splits list.splits producer_pc.splits)

lemma order_next_event_resume:
  "android_next_event_resume s = State s' \<Longrightarrow>
   loop_order (trace s') = loop_order (trace s) \<and> select_thread s' = select_thread s"
  by (auto simp: android_next_event_resume_def android_next_event_take_def prim_defs Let_def
      loop_order_def split: option.splits if_splits list.splits producer_pc.splits)

lemma order_emacs:
  "android_pending s = State s' \<Longrightarrow>
   loop_order (trace s') = loop_order (trace s) \<and> select_thread s' = select_thread s"
  "android_select args s = State s' \<Longrightarrow>
   loop_order (trace s') = loop_order (trace s) \<and> select_thread s' = select_thread s"
  "android_select_locked s = State s' \<Longrightarrow>
   loop_order (trace s') = loop_order (trace s) \<and> select_thread s' = select_thread s"
  "android_select_resume s = State s' \<Longrightarrow>
   loop_order (trace s') = loop_order (trace s) \<and> select_thread s' = select_thread s"
  "android_select_join s = State s' \<Longrightarrow>
   loop_order (trace s') = loop_order (trace s) \<and> select_thread s' = select_thread s"
  "spurious_wakeup t s = State s' \<Longrightarrow>
   loop_order (trace s') = loop_order (trace s) \<and> select_thread s' = select_thread s"
  by (auto simp: android_pending_def android_select_def android_select_arm_def
      android_select_locked_def android_select_resume_def android_select_join_def
      spurious_wakeup_def prim_defs Let_def loop_order_def
      split: if_splits emacs_pc.splits tid.splits producer_pc.splits)

lemma order_select_join_interrupted:
  "android_select_join_interrupted s = State s' \<Longrightarrow>
   loop_order (trace s') = loop_order (trace s) \<and> select_thread s' = select_thread s"
  by (auto simp: android_select_join_interrupted_def prim_defs Let_def loop_order_def
      split: if_splits)

lemma order_select_thread:
  assumes "loop_order (trace s) = Some (phase_of (select_thread s))"
  shows "select_thread_sigwait s = State s' \<Longrightarrow> loop_order (trace s') = Some (phase_of (select_thread s'))"
    and "select_thread_pselect s = State s' \<Longrightarrow> loop_order (trace s') = Some (phase_of (select_thread s'))"
    and "select_thread_store rc s = State s' \<Longrightarrow> loop_order (trace s') = Some (phase_of (select_thread s'))"
    and "select_thread_post s = State s' \<Longrightarrow> loop_order (trace s') = Some (phase_of (select_thread s'))"
    and "select_thread_notify s = State s' \<Longrightarrow> loop_order (trace s') = Some (phase_of (select_thread s'))"
  using assms
  by (auto simp: select_thread_sigwait_def select_thread_pselect_def select_thread_store_def
      select_thread_post_def select_thread_notify_def prim_defs Let_def loop_order_def
      split: if_splits emacs_pc.splits)

lemma step_order:
  assumes "loop_order (trace s) = Some (phase_of (select_thread s))" and "step l s = State s'"
  shows "loop_order (trace s') = Some (phase_of (select_thread s'))"
proof (cases l)
  case (Write_event p m e)
  with assms order_write_event [of p m e s s'] show ?thesis by simp
next
  case (Write_event_resume p)
  with assms order_write_event_resume [of p s s'] show ?thesis by simp
next
  case Next_event
  with assms order_next_event [of s s'] show ?thesis by simp
next
  case Next_event_resume
  with assms order_next_event_resume [of s s'] show ?thesis by simp
next
  case Pending
  with assms order_emacs(1) [of s s'] show ?thesis by simp
next
  case (Select args)
  with assms order_emacs(2) [of args s s'] show ?thesis by simp
next
  case Select_locked
  with assms order_emacs(3) [of s s'] show ?thesis by simp
next
  case Select_resume
  with assms order_emacs(4) [of s s'] show ?thesis by simp
next
  case Select_join
  with assms order_emacs(5) [of s s'] show ?thesis by simp
next
  case Select_join_interrupted
  with assms order_select_join_interrupted [of s s'] show ?thesis by simp
next
  case Thread_sigwait
  with assms order_select_thread(1) [of s s'] show ?thesis by simp
next
  case Thread_pselect
  with assms order_select_thread(2) [of s s'] show ?thesis by simp
next
  case (Thread_store rc)
  with assms order_select_thread(3) [of s rc s'] show ?thesis by simp
next
  case Thread_post
  with assms order_select_thread(4) [of s s'] show ?thesis by simp
next
  case Thread_notify
  with assms order_select_thread(5) [of s s'] show ?thesis by simp
next
  case (Spurious t)
  with assms order_emacs(6) [of t s s'] show ?thesis by simp
qed

lemma run_order:
  "loop_order (trace s) = Some (phase_of (select_thread s)) \<Longrightarrow> run ls s = State s' \<Longrightarrow>
   loop_order (trace s') = Some (phase_of (select_thread s'))"
proof (induction ls arbitrary: s)
  case Nil
  then show ?case by simp
next
  case (Cons l ls)
  from Cons.prems(2) obtain t where t: "step l s = State t" "run ls t = State s'"
    by (auto split: outcome.splits)
  from step_order [OF Cons.prems(1) t(1)] Cons.IH t(2) show ?case by blast
qed

text \<open>
  Claim C8. In every state the program reaches, the actions of the select thread in the
  trace are in the order of the loop body: in each iteration \<^verbatim>\<open>android_pselect_rc\<close> is
  stored first, then the semaphore is posted, then the queue mutex is locked, then the
  flag is set and \<^verbatim>\<open>read_var\<close> is signalled, and then the mutex is unlocked.
  \<open>loop_order\<close> is \<open>None\<close> for a trace in which one of these actions comes out of
  order, so a post after the lock of the same iteration never happens; and the phase
  reached is the one of the point where the select thread stands: it asks for the
  queue mutex (\<open>S_notify\<close>) only when the post is done.
\<close>

theorem select_thread_loop_order:
  assumes "run ls android_init_events = State s"
  shows "loop_order (trace s) = Some (phase_of (select_thread s))"
proof -
  have "loop_order (trace (android_init_events :: 'a sys)) =
      Some (phase_of (select_thread (android_init_events :: 'a sys)))"
    by (simp add: android_init_events_def loop_order_def)
  from run_order [OF this assms] show ?thesis .
qed

theorem select_thread_loop_order_witness:
  "run [Select \<lparr>nfds = 1, readfds = Some 100, writefds = None, exceptfds = None,
                 timeout = None, sigset = None\<rparr>,
        Thread_sigwait, Thread_pselect, Thread_store 1, Thread_post] android_init_events
   = State (state_after
       [Select \<lparr>nfds = 1, readfds = Some 100, writefds = None, exceptfds = None,
                 timeout = None, sigset = None\<rparr>,
        Thread_sigwait, Thread_pselect, Thread_store 1, Thread_post] :: android_event sys) \<and>
   loop_order (trace (state_after
       [Select \<lparr>nfds = 1, readfds = Some 100, writefds = None, exceptfds = None,
                 timeout = None, sigset = None\<rparr>,
        Thread_sigwait, Thread_pselect, Thread_store 1, Thread_post] :: android_event sys))
     = Some Posted \<and>
   loop_order [(Select_thread, Store_rc 1), (Select_thread, Lock Queue_mutex),
               (Select_thread, Sem_post :: android_event action)] = None"
proof -
  let ?ls = "[Select \<lparr>nfds = 1, readfds = Some 100, writefds = None, exceptfds = None,
                 timeout = None, sigset = None\<rparr>,
        Thread_sigwait, Thread_pselect, Thread_store 1, Thread_post] :: android_event label list"
  have "\<exists>s. run ?ls android_init_events = State s"
    by (simp add: run_defs)
  then obtain s where s: "run ?ls android_init_events = State s" by blast
  then have eq: "state_after ?ls = s" by (rule run_state_after)
  have pc: "select_thread (state_after ?ls) = S_notify" by (simp add: run_defs)
  from select_thread_loop_order [OF s] have "loop_order (trace s) = Some (phase_of (select_thread s))" .
  with eq pc have "loop_order (trace (state_after ?ls)) = Some Posted" by simp
  moreover have "loop_order [(Select_thread, Store_rc 1), (Select_thread, Lock Queue_mutex),
               (Select_thread, Sem_post :: android_event action)] = None"
    by (simp add: loop_order_def)
  ultimately show ?thesis using s eq by simp
qed

subsection \<open>Steps in detail\<close>

lemma run_append:
  "run (ls @ ls') s = (case run ls s of State t \<Rightarrow> run ls' t | Disabled \<Rightarrow> Disabled | Crash e \<Rightarrow> Crash e)"
  by (induction ls arbitrary: s) (auto split: outcome.splits)

lemma put_frame:
  "android_write_event_put p c e s = State s' \<Longrightarrow>
   mutex s' = None \<and> write_var s' = write_var s \<and> producers s' = (producers s)(p := P_idle) \<and>
   (emacs s = E_idle \<longrightarrow> emacs s' = E_idle) \<and> num_events s' = num_events s + 1"
  by (auto simp: android_write_event_put_def prim_defs Let_def split: option.splits emacs_pc.splits)

lemma set_dom:
  "set_next h p v = Some h' \<Longrightarrow> (h' a = None) = (h a = None)"
  "set_last h p v = Some h' \<Longrightarrow> (h' a = None) = (h a = None)"
  "set_event h p w = Some h' \<Longrightarrow> (h' a = None) = (h a = None)"
  by (auto simp: set_next_def set_last_def set_event_def split: option.splits if_splits)

lemma link_dom:
  "link_container h c e = Some h' \<Longrightarrow> (h' a = None) = (h a = None)"
  by (auto simp: link_container_def bind_eq_Some_conv set_dom)

lemma unlink_dom:
  "unlink_container h c = Some (h', ev) \<Longrightarrow> (h' a = None) = (h a = None)"
  by (auto simp: unlink_container_def bind_eq_Some_conv set_dom)

lemma put_dom:
  "android_write_event_put p c e s = State s' \<Longrightarrow> (heap s' a = None) = (heap s a = None)"
  by (auto simp: android_write_event_put_def prim_defs Let_def link_dom
      split: option.splits emacs_pc.splits)

lemma signal_write_other:
  "mutex (pthread_cond_signal t Write_var s) = mutex s"
  "emacs (pthread_cond_signal t Write_var s) = emacs s"
  by (simp_all add: pthread_cond_signal_def emit_def split: list.splits producer_pc.splits)

lemma signal_write_none:
  "write_var s = [] \<Longrightarrow>
   write_var (pthread_cond_signal t Write_var s) = [] \<and>
   producers (pthread_cond_signal t Write_var s) = producers s"
  by (simp add: pthread_cond_signal_def emit_def)

lemma signal_write_one:
  "write_var s = [p] \<Longrightarrow> producers s p = P_blocked c e \<Longrightarrow>
   write_var (pthread_cond_signal t Write_var s) = [] \<and>
   producers (pthread_cond_signal t Write_var s) = (producers s)(p := P_woken c e)"
  by (simp add: pthread_cond_signal_def emit_def)

lemma take_shape:
  "android_next_event_take s = State s' \<Longrightarrow>
   \<exists>c h' ev. unlink_container (heap s) c = Some (h', ev) \<and>
     s' = (pthread_mutex_unlock Emacs_thread Queue_mutex
            (pthread_cond_signal Emacs_thread Write_var
              ((emit Emacs_thread (Removed ev) (s\<lparr>heap := h'\<rparr>))
                 \<lparr>num_events := num_events s - 1, heap := h'(c := None)\<rparr>)))\<lparr>emacs := E_idle\<rparr>"
  by (auto simp: android_next_event_take_def Let_def emit_def split: option.splits if_splits)

lemma take_frame:
  assumes "android_next_event_take s = State s'"
  shows "mutex s' = None" and "emacs s' = E_idle" and "num_events s' = num_events s - 1"
    and "write_var s = [] \<Longrightarrow> write_var s' = [] \<and> producers s' = producers s"
    and "write_var s = [p] \<Longrightarrow> producers s p = P_blocked c e \<Longrightarrow>
      write_var s' = [] \<and> producers s' = (producers s)(p := P_woken c e)"
    and "heap s a = None \<Longrightarrow> heap s' a = None"
proof -
  from take_shape [OF assms] obtain d h' ev where u: "unlink_container (heap s) d = Some (h', ev)"
    and s': "s' = (pthread_mutex_unlock Emacs_thread Queue_mutex
            (pthread_cond_signal Emacs_thread Write_var
              ((emit Emacs_thread (Removed ev) (s\<lparr>heap := h'\<rparr>))
                 \<lparr>num_events := num_events s - 1, heap := h'(d := None)\<rparr>)))\<lparr>emacs := E_idle\<rparr>"
    by blast
  let ?s1 = "(emit Emacs_thread (Removed ev) (s\<lparr>heap := h'\<rparr>))
                 \<lparr>num_events := num_events s - 1, heap := h'(d := None)\<rparr>"
  have f: "write_var ?s1 = write_var s" "producers ?s1 = producers s"
    by (simp_all add: emit_def)
  show "mutex s' = None" "emacs s' = E_idle"
    by (simp_all add: s' pthread_mutex_unlock_def emit_def)
  show "num_events s' = num_events s - 1"
    by (simp add: s' pthread_mutex_unlock_def emit_def signal_write_frame)
  show "write_var s = [] \<Longrightarrow> write_var s' = [] \<and> producers s' = producers s"
    using signal_write_none [of ?s1 Emacs_thread] f
    by (simp add: s' pthread_mutex_unlock_def emit_def)
  show "write_var s = [p] \<Longrightarrow> producers s p = P_blocked c e \<Longrightarrow>
      write_var s' = [] \<and> producers s' = (producers s)(p := P_woken c e)"
    using signal_write_one [of ?s1 p c e Emacs_thread] f
    by (simp add: s' pthread_mutex_unlock_def emit_def)
  show "heap s a = None \<Longrightarrow> heap s' a = None"
    using unlink_dom [OF u, of a]
    by (simp add: s' pthread_mutex_unlock_def emit_def signal_write_frame)
qed

subsection \<open>The handshake invariant\<close>

lemma result_after_append [simp]:
  "result_after r (tr @ tr') = result_after (result_after r tr) tr'"
  by (induction r tr rule: result_after.induct) auto

lemma handshake_init: "handshake android_init_events"
  by (simp add: handshake_def android_init_events_def pselect_result_def)

lemma same_handshake_inv: "handshake s \<Longrightarrow> same_handshake s s' \<Longrightarrow> handshake s'"
  by (simp add: handshake_def same_handshake_def)

lemma same_handshake_trans [trans]:
  "same_handshake s t \<Longrightarrow> same_handshake t u \<Longrightarrow> same_handshake s u"
  by (simp add: same_handshake_def)

lemma same_handshake_signal: "same_handshake s (pthread_cond_signal t cv s)"
  by (simp add: same_handshake_def pthread_cond_signal_def emit_def pselect_result_def
      split: cond_id.splits list.splits producer_pc.splits emacs_pc.splits)

lemma same_handshake_lock_queue: "same_handshake s (pthread_mutex_lock t Queue_mutex s)"
  by (simp add: same_handshake_def pthread_mutex_lock_def emit_def pselect_result_def)

lemma same_handshake_unlock_queue: "same_handshake s (pthread_mutex_unlock t Queue_mutex s)"
  by (simp add: same_handshake_def pthread_mutex_unlock_def emit_def pselect_result_def)

lemma same_handshake_wait_leave: "same_handshake s (pthread_cond_wait_leave t cv s)"
  by (simp add: same_handshake_def pthread_cond_wait_leave_def emit_def pselect_result_def)

lemma same_handshake_wait_enter: "same_handshake s (pthread_cond_wait_enter t cv s)"
  by (simp add: same_handshake_def pthread_cond_wait_enter_def emit_def pselect_result_def)

lemma put_shape:
  "android_write_event_put p c e s = State s' \<Longrightarrow>
   \<exists>h'. link_container (heap s) c e = Some h' \<and>
     s' = (pthread_mutex_unlock (Producer p) Queue_mutex
            (pthread_cond_signal (Producer p) Read_var
              (emit (Producer p) (Inserted e) (s\<lparr>heap := h', num_events := num_events s + 1\<rparr>))))
          \<lparr>producers := (producers s)(p := P_idle)\<rparr>"
  by (auto simp: android_write_event_put_def Let_def emit_def signal_read_producers [unfolded emit_def]
      pthread_mutex_unlock_def split: option.splits)

lemma same_handshake_put:
  assumes "android_write_event_put p c e s = State s'"
  shows "same_handshake s s'"
proof -
  from put_shape [OF assms] obtain h' where
    s': "s' = (pthread_mutex_unlock (Producer p) Queue_mutex
            (pthread_cond_signal (Producer p) Read_var
              (emit (Producer p) (Inserted e) (s\<lparr>heap := h', num_events := num_events s + 1\<rparr>))))
          \<lparr>producers := (producers s)(p := P_idle)\<rparr>"
    by blast
  let ?s1 = "emit (Producer p) (Inserted e) (s\<lparr>heap := h', num_events := num_events s + 1\<rparr>)"
  let ?s2 = "pthread_cond_signal (Producer p) Read_var ?s1"
  let ?s3 = "pthread_mutex_unlock (Producer p) Queue_mutex ?s2"
  have "same_handshake s ?s1" by (simp add: same_handshake_def emit_def pselect_result_def)
  also have "same_handshake ?s1 ?s2" by (rule same_handshake_signal)
  also have "same_handshake ?s2 ?s3" by (rule same_handshake_unlock_queue)
  also have "same_handshake ?s3 s'" by (simp add: s' same_handshake_def)
  finally show ?thesis .
qed

lemma same_handshake_take:
  assumes "android_next_event_take s = State s'" and "\<not> waiting_select (emacs s)"
  shows "same_handshake s s'"
proof -
  from take_shape [OF assms(1)] obtain c h' ev where
    s': "s' = (pthread_mutex_unlock Emacs_thread Queue_mutex
            (pthread_cond_signal Emacs_thread Write_var
              ((emit Emacs_thread (Removed ev) (s\<lparr>heap := h'\<rparr>))
                 \<lparr>num_events := num_events s - 1, heap := h'(c := None)\<rparr>)))\<lparr>emacs := E_idle\<rparr>"
    by blast
  let ?s1 = "(emit Emacs_thread (Removed ev) (s\<lparr>heap := h'\<rparr>))
                 \<lparr>num_events := num_events s - 1, heap := h'(c := None)\<rparr>"
  let ?s2 = "pthread_cond_signal Emacs_thread Write_var ?s1"
  let ?s3 = "pthread_mutex_unlock Emacs_thread Queue_mutex ?s2"
  have "same_handshake s ?s1" by (simp add: same_handshake_def emit_def pselect_result_def)
  also have "same_handshake ?s1 ?s2" by (rule same_handshake_signal)
  also have "same_handshake ?s2 ?s3" by (rule same_handshake_unlock_queue)
  finally have "same_handshake s ?s3" .
  then show ?thesis using assms(2) by (simp add: s' same_handshake_def)
qed

lemma handshake_write_event:
  assumes "handshake s" and "android_write_event p m e s = State s'"
  shows "handshake s'"
proof (cases m)
  case None
  with assms show ?thesis by (simp add: android_write_event_def split: if_splits)
next
  case (Some c)
  let ?cell = "\<lparr>next_ptr = None, last_ptr = None, event = None\<rparr> :: 'a android_event_container"
  let ?s2 = "pthread_mutex_lock (Producer p) Queue_mutex (s\<lparr>heap := (heap s)(c \<mapsto> ?cell)\<rparr>)"
  have h2: "same_handshake s ?s2"
    by (simp add: same_handshake_def pthread_mutex_lock_def emit_def pselect_result_def)
  show ?thesis
  proof (cases "1024 \<le> num_events s")
    case True
    let ?s3 = "pthread_cond_wait_enter (Producer p) Write_var
        (?s2\<lparr>write_var := write_var ?s2 @ [p], producers := (producers ?s2)(p := P_blocked c e)\<rparr>)"
    have "s' = ?s3"
      using assms(2) Some True
      by (simp add: android_write_event_def Let_def pthread_mutex_lock_def emit_def split: if_splits)
    moreover have "same_handshake s ?s3"
      by (simp add: same_handshake_def pthread_cond_wait_enter_def pthread_mutex_lock_def emit_def
          pselect_result_def)
    ultimately show ?thesis using assms(1) by (simp add: same_handshake_inv)
  next
    case False
    have "android_write_event_put p c e ?s2 = State s'"
      using assms(2) Some False
      by (simp add: android_write_event_def Let_def pthread_mutex_lock_def emit_def split: if_splits)
    then have "same_handshake ?s2 s'" by (rule same_handshake_put)
    with h2 have "same_handshake s s'" by (rule same_handshake_trans)
    with assms(1) show ?thesis by (rule same_handshake_inv)
  qed
qed

lemma handshake_write_event_resume:
  assumes "handshake s" and "android_write_event_resume p s = State s'"
  shows "handshake s'"
proof -
  from assms(2) obtain c e where
    put: "android_write_event_put p c e (pthread_cond_wait_leave (Producer p) Write_var s) = State s'"
    by (auto simp: android_write_event_resume_def split: producer_pc.splits if_splits)
  have "same_handshake s (pthread_cond_wait_leave (Producer p) Write_var s)"
    by (rule same_handshake_wait_leave)
  also have "same_handshake (pthread_cond_wait_leave (Producer p) Write_var s) s'"
    using put by (rule same_handshake_put)
  finally show ?thesis using assms(1) by (simp add: same_handshake_inv)
qed

lemma handshake_next_event:
  assumes "handshake s" and "android_next_event s = State s'"
  shows "handshake s'"
proof -
  let ?s = "pthread_mutex_lock Emacs_thread Queue_mutex s"
  from assms(2) have idle: "emacs s = E_idle"
    by (simp add: android_next_event_def split: if_splits)
  have l: "same_handshake s ?s" by (rule same_handshake_lock_queue)
  show ?thesis
  proof (cases "num_events s = 0")
    case True
    then have "s' = pthread_cond_wait_enter Emacs_thread Read_var (?s\<lparr>emacs := E_next_blocked\<rparr>)"
      using assms(2) by (simp add: android_next_event_def Let_def pthread_mutex_lock_def emit_def
          split: if_splits)
    then have "same_handshake s s'"
      using idle by (simp add: same_handshake_def prim_defs pselect_result_def)
    with assms(1) show ?thesis by (rule same_handshake_inv)
  next
    case False
    then have t: "android_next_event_take ?s = State s'"
      using assms(2) by (simp add: android_next_event_def Let_def pthread_mutex_lock_def emit_def
          split: if_splits)
    have "\<not> waiting_select (emacs ?s)" using idle by (simp add: pthread_mutex_lock_def emit_def)
    with t have "same_handshake ?s s'" by (rule same_handshake_take)
    with l have "same_handshake s s'" by (rule same_handshake_trans)
    with assms(1) show ?thesis by (rule same_handshake_inv)
  qed
qed

lemma handshake_next_event_resume:
  assumes "handshake s" and "android_next_event_resume s = State s'"
  shows "handshake s'"
proof -
  let ?s = "pthread_cond_wait_leave Emacs_thread Read_var s"
  from assms(2) have w: "emacs s = E_next_woken" and t: "android_next_event_take ?s = State s'"
    by (simp_all add: android_next_event_resume_def split: if_splits)
  have "\<not> waiting_select (emacs ?s)" using w by (simp add: pthread_cond_wait_leave_def emit_def)
  with t have "same_handshake ?s s'" by (rule same_handshake_take)
  with same_handshake_wait_leave have "same_handshake s s'" by (rule same_handshake_trans)
  with assms(1) show ?thesis by (rule same_handshake_inv)
qed

lemma handshake_pending:
  assumes "handshake s" and "android_pending s = State s'"
  shows "handshake s'"
proof -
  from assms(2) have "same_handshake s s'"
    by (auto simp: same_handshake_def android_pending_def pthread_mutex_lock_def
        pthread_mutex_unlock_def emit_def Let_def pselect_result_def split: if_splits)
  with assms(1) show ?thesis by (rule same_handshake_inv)
qed

lemma handshake_arm:
  assumes "handshake s" and "\<not> waiting_select (emacs s)" and "select_mutex s = None"
  shows "handshake (android_select_arm args s)"
  using assms
  by (cases "select_thread s")
    (simp_all add: handshake_def android_select_arm_def pthread_mutex_lock_def
      pthread_mutex_unlock_def pthread_kill_def pthread_cond_wait_enter_def emit_def Let_def
      pselect_result_def split: if_splits)

lemma handshake_select:
  assumes "handshake s" and "android_select args s = State s'"
  shows "handshake s'"
proof -
  from assms(2) have idle: "emacs s = E_idle" and free: "mutex s = None"
    by (simp_all add: android_select_def split: if_splits)
  let ?l = "pthread_mutex_lock Emacs_thread Queue_mutex s"
  have l: "same_handshake s ?l" by (rule same_handshake_lock_queue)
  have fl: "num_events ?l = num_events s" "select_mutex ?l = select_mutex s" "emacs ?l = E_idle"
    using idle by (simp_all add: pthread_mutex_lock_def emit_def)
  show ?thesis
  proof (cases "num_events s = 0")
    case False
    then have "s' = emit Emacs_thread (Return 1) (pthread_mutex_unlock Emacs_thread Queue_mutex ?l)"
      using assms(2) idle free by (simp add: android_select_def Let_def fl)
    then have "same_handshake ?l s'"
      by (simp add: same_handshake_def pthread_mutex_unlock_def emit_def pselect_result_def)
    with l have "same_handshake s s'" by (rule same_handshake_trans)
    with assms(1) show ?thesis by (rule same_handshake_inv)
  next
    case True
    let ?c = "emit Emacs_thread (Store_completed False) (?l\<lparr>android_pselect_completed := False\<rparr>)"
    have "same_handshake ?l ?c"
      by (simp add: same_handshake_def emit_def pselect_result_def)
    with l have "same_handshake s ?c" by (rule same_handshake_trans)
    with assms(1) have hc: "handshake ?c" by (rule same_handshake_inv)
    have fc: "select_mutex ?c = select_mutex s" "emacs ?c = E_idle"
      using fl by (simp_all add: emit_def)
    show ?thesis
    proof (cases "select_mutex s = None")
      case True
      then have "s' = android_select_arm args ?c"
        using assms(2) idle free \<open>num_events s = 0\<close> by (simp add: android_select_def Let_def fl fc)
      moreover have "handshake (android_select_arm args ?c)"
        using hc fc True by (intro handshake_arm) simp_all
      ultimately show ?thesis by simp
    next
      case False
      then have "s' = ?c\<lparr>emacs := E_select_locking args\<rparr>"
        using assms(2) idle free \<open>num_events s = 0\<close> by (simp add: android_select_def Let_def fl fc)
      then show ?thesis using hc fc by (simp add: handshake_def)
    qed
  qed
qed

lemma handshake_select_locked:
  assumes "handshake s" and "android_select_locked s = State s'"
  shows "handshake s'"
proof -
  from assms(2) obtain args where "emacs s = E_select_locking args" "select_mutex s = None"
    "s' = android_select_arm args s"
    by (auto simp: android_select_locked_def split: emacs_pc.splits if_splits)
  then show ?thesis using assms(1) handshake_arm [of s args] by simp
qed

lemma handshake_select_resume:
  assumes "handshake s" and "android_select_resume s = State s'"
  shows "handshake s'"
proof -
  from assms(2) have w: "emacs s = E_select_woken"
    and s': "s' = (pthread_kill Emacs_thread SIGUSR1
        (pthread_cond_wait_leave Emacs_thread Read_var s))\<lparr>emacs := E_select_joining\<rparr>"
    by (simp_all add: android_select_resume_def Let_def split: if_splits)
  have "same_handshake s s'"
    using w by (simp add: s' same_handshake_def pthread_kill_def pthread_cond_wait_leave_def
        emit_def pselect_result_def)
  with assms(1) show ?thesis by (rule same_handshake_inv)
qed

lemma handshake_select_join:
  assumes "handshake s" and "android_select_join s = State s'"
  shows "handshake s'"
proof -
  from assms(2) have j: "emacs s = E_select_joining" "0 < android_pselect_sem s"
    by (simp_all add: android_select_join_def split: if_splits)
  then have "s' = emit Emacs_thread (Return (nfds_return (num_events s) (android_pselect_rc s)))
      ((pthread_mutex_unlock Emacs_thread Queue_mutex (sem_wait Emacs_thread s))\<lparr>emacs := E_idle\<rparr>)"
    using assms(2)
    by (simp add: android_select_join_def Let_def sem_wait_def pthread_mutex_unlock_def emit_def)
  then show ?thesis
    using assms(1) j
    by (simp add: handshake_def sem_wait_def pthread_mutex_unlock_def emit_def split: if_splits)
qed

lemma handshake_spurious:
  assumes "handshake s" and "spurious_wakeup t s = State s'"
  shows "handshake s'"
proof -
  from assms(2) have "same_handshake s s'"
    by (auto simp: same_handshake_def spurious_wakeup_def
        split: tid.splits emacs_pc.splits producer_pc.splits)
  with assms(1) show ?thesis by (rule same_handshake_inv)
qed

lemma handshake_sigwait:
  "handshake s \<Longrightarrow> select_thread_sigwait s = State s' \<Longrightarrow> handshake s'"
  by (auto simp: handshake_def select_thread_sigwait_def emit_def pselect_result_def
      split: if_splits)

lemma handshake_pselect:
  "handshake s \<Longrightarrow> select_thread_pselect s = State s' \<Longrightarrow> handshake s'"
  by (auto simp: handshake_def select_thread_pselect_def pthread_mutex_lock_def emit_def Let_def
      pselect_result_def split: if_splits)

lemma handshake_store:
  "handshake s \<Longrightarrow> select_thread_store rc s = State s' \<Longrightarrow> handshake s'"
  by (auto simp: handshake_def select_thread_store_def pthread_mutex_unlock_def emit_def Let_def
      pselect_result_def split: if_splits)

lemma handshake_post:
  "handshake s \<Longrightarrow> select_thread_post s = State s' \<Longrightarrow> handshake s'"
  by (auto simp: handshake_def select_thread_post_def sem_post_def emit_def
      pselect_result_def split: if_splits)

lemma handshake_notify:
  assumes "handshake s" and "select_thread_notify s = State s'"
  shows "handshake s'"
proof -
  from assms(2) have pc: "select_thread s = S_notify"
    by (simp add: select_thread_notify_def split: if_splits)
  let ?s1 = "emit Select_thread (Store_completed True)
      ((pthread_mutex_lock Select_thread Queue_mutex s)\<lparr>android_pselect_completed := True\<rparr>)"
  let ?s2 = "pthread_cond_signal Select_thread Read_var ?s1"
  let ?s3 = "pthread_mutex_unlock Select_thread Queue_mutex ?s2"
  have s': "s' = ?s3\<lparr>select_thread := S_sigwait\<rparr>"
    using assms(2) by (simp add: select_thread_notify_def Let_def split: if_splits)
  have "same_handshake s ?s1"
    by (simp add: same_handshake_def pthread_mutex_lock_def emit_def pselect_result_def)
  also have "same_handshake ?s1 ?s2" by (rule same_handshake_signal)
  also have "same_handshake ?s2 ?s3" by (rule same_handshake_unlock_queue)
  finally have 3: "same_handshake s ?s3" .
  then have "select_thread ?s3 \<noteq> S_pselect" "select_thread ?s3 \<noteq> S_post"
    "\<not> calling_pselect (select_thread ?s3)"
    using pc by (simp_all add: same_handshake_def)
  then have "same_handshake ?s3 s'"
    by (simp add: s' same_handshake_def)
  with 3 have "same_handshake s s'" by (rule same_handshake_trans)
  with assms(1) show ?thesis by (rule same_handshake_inv)
qed

lemma step_handshake:
  assumes "handshake s" and "step l s = State s'" and "l \<noteq> Select_join_interrupted"
  shows "handshake s'"
proof (cases l)
  case (Write_event p m e)
  with assms handshake_write_event [of s p m e s'] show ?thesis by simp
next
  case (Write_event_resume p)
  with assms handshake_write_event_resume [of s p s'] show ?thesis by simp
next
  case Next_event
  with assms handshake_next_event [of s s'] show ?thesis by simp
next
  case Next_event_resume
  with assms handshake_next_event_resume [of s s'] show ?thesis by simp
next
  case Pending
  with assms handshake_pending [of s s'] show ?thesis by simp
next
  case (Select args)
  with assms handshake_select [of s args s'] show ?thesis by simp
next
  case Select_locked
  with assms handshake_select_locked [of s s'] show ?thesis by simp
next
  case Select_resume
  with assms handshake_select_resume [of s s'] show ?thesis by simp
next
  case Select_join
  with assms handshake_select_join [of s s'] show ?thesis by simp
next
  case Select_join_interrupted
  with assms show ?thesis by simp
next
  case Thread_sigwait
  with assms handshake_sigwait [of s s'] show ?thesis by simp
next
  case Thread_pselect
  with assms handshake_pselect [of s s'] show ?thesis by simp
next
  case (Thread_store rc)
  with assms handshake_store [of s rc s'] show ?thesis by simp
next
  case Thread_post
  with assms handshake_post [of s s'] show ?thesis by simp
next
  case Thread_notify
  with assms handshake_notify [of s s'] show ?thesis by simp
next
  case (Spurious t)
  with assms handshake_spurious [of s t s'] show ?thesis by simp
qed

text \<open>The handshake holds as long as no \<^verbatim>\<open>sem_wait\<close> was interrupted.\<close>

lemma run_handshake:
  "handshake s \<Longrightarrow> Select_join_interrupted \<notin> set ls \<Longrightarrow> run ls s = State s' \<Longrightarrow> handshake s'"
proof (induction ls arbitrary: s)
  case Nil
  then show ?case by simp
next
  case (Cons l ls)
  from Cons.prems(3) obtain t where t: "step l s = State t" "run ls t = State s'"
    by (auto split: outcome.splits)
  from Cons.prems(2) have n: "l \<noteq> Select_join_interrupted" "Select_join_interrupted \<notin> set ls"
    by auto
  from step_handshake [OF Cons.prems(1) t(1) n(1)] Cons.IH n(2) t(2) show ?case by blast
qed

lemma reachable_handshake:
  "run ls android_init_events = State s \<Longrightarrow> Select_join_interrupted \<notin> set ls \<Longrightarrow> handshake s"
  using run_handshake [OF handshake_init] by blast

subsection \<open>The value \<^verbatim>\<open>android_select\<close> returns\<close>

lemma returned_select_join:
  "emacs s = E_select_joining \<Longrightarrow> 0 < android_pselect_sem s \<Longrightarrow>
   returned (android_select_join s) = Some (nfds_return (num_events s) (android_pselect_rc s))"
  by (simp add: android_select_join_def prim_defs returned_def return_value_def Let_def)

lemma returned_select_early:
  "emacs s = E_idle \<Longrightarrow> mutex s = None \<Longrightarrow> num_events s \<noteq> 0 \<Longrightarrow>
   returned (android_select args s) = Some 1"
  by (simp add: android_select_def prim_defs returned_def return_value_def Let_def)

lemma select_early_untouched:
  "emacs s = E_idle \<Longrightarrow> mutex s = None \<Longrightarrow> num_events s \<noteq> 0 \<Longrightarrow>
   \<exists>s'. android_select args s = State s' \<and> sigusr2_pending s' = sigusr2_pending s \<and>
     select_thread s' = select_thread s"
  by (simp add: android_select_def prim_defs Let_def)

lemma join_reads_result:
  assumes "run ls android_init_events = State s" and "Select_join_interrupted \<notin> set ls"
    and "emacs s = E_select_joining" and "0 < android_pselect_sem s"
  shows "pselect_result (trace s) = Some (android_pselect_rc s)"
  using reachable_handshake [OF assms(1,2)] assms(3,4) by (simp add: handshake_def)

lemma idle_no_descriptor_wait:
  assumes "run ls android_init_events = State s" and "Select_join_interrupted \<notin> set ls"
    and "emacs s = E_idle"
  shows "select_mutex s = None" and "\<not> sigusr2_pending s"
    and "\<not> calling_pselect (select_thread s)"
  using reachable_handshake [OF assms(1,2)] assms(3)
  by (cases "select_thread s"; simp add: handshake_def split: if_splits)+

lemma select_arms:
  assumes "emacs s = E_idle" and "mutex s = None" and "num_events s = 0"
    and "select_mutex s = None"
  shows "\<exists>s'. android_select args s = State s' \<and> emacs s' = E_select_blocked \<and>
     sigusr2_pending s' \<and> android_pselect_args s' = args \<and> return_value (trace s') = None"
  using assms
  by (simp add: android_select_def android_select_arm_def prim_defs Let_def return_value_def)

text \<open>
  Claim C1, as the specification states it, fails: with two events queued (then
  \<^verbatim>\<open>android_pending\<close> returns 2) and no descriptor ready, \<^verbatim>\<open>android_select\<close> returns
  1 at once (line 415), not \<open>max 2 0 + 0 = 2\<close>. And a call made on an empty queue,
  with a timeout and \<^verbatim>\<open>pselect\<close> returning 0, returns 1 and not 0 when an event was
  written while it waited.
\<close>

theorem select_two_queued_counterexample:
  "returned (run [Write_event 0 (Some 1) (Key_press 1 0 0 65),
                  Write_event 1 (Some 2) (Key_release 1 1 0 65),
                  Pending] android_init_events) = Some 2 \<and>
   returned (run [Write_event 0 (Some 1) (Key_press 1 0 0 65),
                  Write_event 1 (Some 2) (Key_release 1 1 0 65),
                  Select \<lparr>nfds = 0, readfds = None, writefds = None, exceptfds = None,
                          timeout = None, sigset = None\<rparr>] android_init_events) = Some 1 \<and>
   returned (run [Write_event 0 (Some 1) (Key_press 1 0 0 65),
                  Write_event 1 (Some 2) (Key_release 1 1 0 65),
                  Select \<lparr>nfds = 0, readfds = None, writefds = None, exceptfds = None,
                          timeout = None, sigset = None\<rparr>] android_init_events) \<noteq> Some (max 2 0 + 0) \<and>
   returned (run [Pending,
                  Select \<lparr>nfds = 1, readfds = Some 100, writefds = None, exceptfds = None,
                          timeout = Some 200, sigset = None\<rparr>,
                  Thread_sigwait, Thread_pselect,
                  Write_event 0 (Some 1) (Key_press 1 0 0 65),
                  Thread_store 0, Thread_post, Select_resume, Select_join] android_init_events) = Some 1"
  by (simp add: run_defs returned_def return_value_def nfds_return_def)

text \<open>
  Claim C1, amended. In every state the program reaches without a \<^verbatim>\<open>sem_wait\<close> that a
  signal interrupted: a call that finds \<^verbatim>\<open>num_events\<close> greater than zero returns 1,
  whatever the descriptors would do, and no descriptor wait is started: no \<^verbatim>\<open>SIGUSR2\<close>
  is pending after it and the select thread is not on its way to \<^verbatim>\<open>pselect\<close>. A call
  that finds no event does not return in that step: it stores the arguments, sends
  \<^verbatim>\<open>SIGUSR2\<close> and waits. When \<^verbatim>\<open>sem_wait\<close> has taken the semaphore, the select thread
  has stored the result \<open>k\<close> of the \<^verbatim>\<open>pselect\<close> that this call started, and with \<open>n\<close>
  the number of events then queued the call returns: for \<open>k \<ge> 0\<close>, \<open>k\<close> plus 1 if \<open>n\<close>
  is not zero; for \<open>k < 0\<close>, \<open>k\<close> if \<open>n\<close> is zero, and 1 otherwise. What a call returns
  when its \<^verbatim>\<open>sem_wait\<close> is interrupted, or after an earlier one was, is not stated
  here.
\<close>

theorem select_fusion:
  assumes "run ls android_init_events = State s" and "Select_join_interrupted \<notin> set ls"
  shows "(emacs s = E_idle \<and> mutex s = None \<and> 0 < num_events s \<longrightarrow>
      returned (android_select args s) = Some 1 \<and>
      (\<exists>s'. android_select args s = State s' \<and> \<not> sigusr2_pending s' \<and>
         \<not> calling_pselect (select_thread s'))) \<and>
   (emacs s = E_idle \<and> mutex s = None \<and> num_events s = 0 \<longrightarrow>
      returned (android_select args s) = None \<and>
      (\<exists>s'. android_select args s = State s' \<and> emacs s' = E_select_blocked \<and>
         sigusr2_pending s' \<and> android_pselect_args s' = args)) \<and>
   (emacs s = E_select_joining \<and> 0 < android_pselect_sem s \<longrightarrow>
      (\<exists>k. pselect_result (trace s) = Some k \<and>
         returned (android_select_join s) =
           Some (if 0 \<le> k then (if num_events s \<noteq> 0 then 1 else 0) + k
                 else if num_events s \<noteq> 0 then 1 else k)))"
proof (intro conjI impI)
  assume a: "emacs s = E_idle \<and> mutex s = None \<and> 0 < num_events s"
  then show "returned (android_select args s) = Some 1"
    by (simp add: returned_select_early)
  from a select_early_untouched [of s args] obtain s' where
    "android_select args s = State s'" "sigusr2_pending s' = sigusr2_pending s"
    "select_thread s' = select_thread s"
    by auto
  with idle_no_descriptor_wait(2,3) [OF assms] a
  show "\<exists>s'. android_select args s = State s' \<and> \<not> sigusr2_pending s' \<and>
         \<not> calling_pselect (select_thread s')"
    by auto
next
  assume a: "emacs s = E_idle \<and> mutex s = None \<and> num_events s = 0"
  then have "select_mutex s = None" using idle_no_descriptor_wait(1) [OF assms] by simp
  with a select_arms [of s args] obtain s' where s': "android_select args s = State s'"
    "emacs s' = E_select_blocked" "sigusr2_pending s'" "android_pselect_args s' = args"
    "return_value (trace s') = None"
    by blast
  then show "returned (android_select args s) = None" by (simp add: returned_def)
  from s' show "\<exists>s'. android_select args s = State s' \<and> emacs s' = E_select_blocked \<and>
         sigusr2_pending s' \<and> android_pselect_args s' = args" by blast
next
  assume a: "emacs s = E_select_joining \<and> 0 < android_pselect_sem s"
  then have "pselect_result (trace s) = Some (android_pselect_rc s)"
    using join_reads_result [OF assms] by simp
  moreover have "returned (android_select_join s) =
      Some (nfds_return (num_events s) (android_pselect_rc s))"
    using a by (simp add: returned_select_join)
  ultimately show "\<exists>k. pselect_result (trace s) = Some k \<and>
         returned (android_select_join s) =
           Some (if 0 \<le> k then (if num_events s \<noteq> 0 then 1 else 0) + k
                 else if num_events s \<noteq> 0 then 1 else k)"
    by (auto simp: nfds_return_def Let_def)
qed

theorem select_fusion_witness:
  "run [Write_event 0 (Some 1) (Key_press 1 0 0 65)] android_init_events
     = State (state_after [Write_event 0 (Some 1) (Key_press 1 0 0 65)]) \<and>
   Select_join_interrupted \<notin> set [Write_event 0 (Some 1) (Key_press 1 0 0 65)] \<and>
   emacs (state_after [Write_event 0 (Some 1) (Key_press 1 0 0 65)]) = E_idle \<and>
   mutex (state_after [Write_event 0 (Some 1) (Key_press 1 0 0 65)]) = None \<and>
   0 < num_events (state_after [Write_event 0 (Some 1) (Key_press 1 0 0 65)]) \<and>
   returned (android_select
       \<lparr>nfds = 1, readfds = Some 100, writefds = None, exceptfds = None, timeout = None, sigset = None\<rparr>
       (state_after [Write_event 0 (Some 1) (Key_press 1 0 0 65)])) = Some 1 \<and>
   run [] android_init_events = State (state_after [] :: android_event sys) \<and>
   Select_join_interrupted \<notin> set ([] :: android_event label list) \<and>
   emacs (state_after [] :: android_event sys) = E_idle \<and>
   mutex (state_after [] :: android_event sys) = None \<and>
   num_events (state_after [] :: android_event sys) = 0 \<and>
   returned (android_select
       \<lparr>nfds = 1, readfds = Some 100, writefds = None, exceptfds = None, timeout = None, sigset = None\<rparr>
       (state_after [] :: android_event sys)) = None \<and>
   run [Select \<lparr>nfds = 1, readfds = Some 100, writefds = None, exceptfds = None, timeout = None, sigset = None\<rparr>,
        Thread_sigwait, Thread_pselect, Thread_store 1, Thread_post, Thread_notify,
        Select_resume] android_init_events
     = State (state_after
       [Select \<lparr>nfds = 1, readfds = Some 100, writefds = None, exceptfds = None, timeout = None, sigset = None\<rparr>,
        Thread_sigwait, Thread_pselect, Thread_store 1, Thread_post, Thread_notify,
        Select_resume] :: android_event sys) \<and>
   Select_join_interrupted \<notin> set ([Select \<lparr>nfds = 1, readfds = Some 100, writefds = None, exceptfds = None, timeout = None, sigset = None\<rparr>,
        Thread_sigwait, Thread_pselect, Thread_store 1, Thread_post, Thread_notify,
        Select_resume] :: android_event label list) \<and>
   emacs (state_after
       [Select \<lparr>nfds = 1, readfds = Some 100, writefds = None, exceptfds = None, timeout = None, sigset = None\<rparr>,
        Thread_sigwait, Thread_pselect, Thread_store 1, Thread_post, Thread_notify,
        Select_resume] :: android_event sys) = E_select_joining \<and>
   0 < android_pselect_sem (state_after
       [Select \<lparr>nfds = 1, readfds = Some 100, writefds = None, exceptfds = None, timeout = None, sigset = None\<rparr>,
        Thread_sigwait, Thread_pselect, Thread_store 1, Thread_post, Thread_notify,
        Select_resume] :: android_event sys) \<and>
   pselect_result (trace (state_after
       [Select \<lparr>nfds = 1, readfds = Some 100, writefds = None, exceptfds = None, timeout = None, sigset = None\<rparr>,
        Thread_sigwait, Thread_pselect, Thread_store 1, Thread_post, Thread_notify,
        Select_resume] :: android_event sys)) = Some 1 \<and>
   returned (android_select_join (state_after
       [Select \<lparr>nfds = 1, readfds = Some 100, writefds = None, exceptfds = None, timeout = None, sigset = None\<rparr>,
        Thread_sigwait, Thread_pselect, Thread_store 1, Thread_post, Thread_notify,
        Select_resume] :: android_event sys)) = Some 1"
proof -
  let ?a = "\<lparr>nfds = 1, readfds = Some 100, writefds = None, exceptfds = None, timeout = None, sigset = None\<rparr>"
  let ?l1 = "[Write_event 0 (Some 1) (Key_press 1 0 0 65)]"
  let ?l2 = "[] :: android_event label list"
  let ?l3 = "[Select \<lparr>nfds = 1, readfds = Some 100, writefds = None, exceptfds = None, timeout = None, sigset = None\<rparr>,
        Thread_sigwait, Thread_pselect, Thread_store 1, Thread_post, Thread_notify,
        Select_resume] :: android_event label list"
  have "\<exists>s. run ?l1 android_init_events = State s" by (simp add: run_defs)
  then obtain s1 where s1: "run ?l1 android_init_events = State s1" by blast
  then have e1: "state_after ?l1 = s1" by (rule run_state_after)
  have n1: "Select_join_interrupted \<notin> set ?l1" by simp
  have h1: "emacs (state_after ?l1) = E_idle" "mutex (state_after ?l1) = None"
    "0 < num_events (state_after ?l1)"
    by (simp_all add: run_defs)
  have s2: "run ?l2 android_init_events = State (state_after ?l2)"
    by (simp add: state_after_def)
  have n2: "Select_join_interrupted \<notin> set ?l2" by simp
  have h2: "emacs (state_after ?l2) = E_idle" "mutex (state_after ?l2) = None"
    "num_events (state_after ?l2) = 0"
    by (simp_all add: run_defs)
  have "\<exists>s. run ?l3 android_init_events = State s" by (simp add: run_defs)
  then obtain s3 where s3: "run ?l3 android_init_events = State s3" by blast
  then have e3: "state_after ?l3 = s3" by (rule run_state_after)
  have n3: "Select_join_interrupted \<notin> set ?l3" by simp
  have h3: "emacs (state_after ?l3) = E_select_joining" "0 < android_pselect_sem (state_after ?l3)"
    "android_pselect_rc (state_after ?l3) = 1" "num_events (state_after ?l3) = 0"
    by (simp_all add: run_defs)
  have r3: "returned (android_select_join (state_after ?l3)) = Some 1"
    using h3 by (simp add: returned_select_join nfds_return_def)
  from select_fusion [OF s3 n3] h3 e3 r3
  have p3: "pselect_result (trace (state_after ?l3)) = Some 1"
    by (auto split: if_splits)
  from select_fusion [OF s1 n1, of ?a] select_fusion [OF s2 n2, of ?a]
  show ?thesis
    using s1 e1 h1 s2 h2 s3 e3 h3 r3 p3 by simp
qed

text \<open>The three conditions of claim C2 hold for a call whose \<^verbatim>\<open>sem_wait\<close> takes the
  semaphore, as long as no \<^verbatim>\<open>sem_wait\<close> was interrupted before.\<close>

lemma select_return_value_joined:
  assumes "run ls android_init_events = State s" and "Select_join_interrupted \<notin> set ls"
    and a: "emacs s = E_select_joining" "0 < android_pselect_sem s"
  shows "\<exists>r k. pselect_result (trace s) = Some k \<and> returned (android_select_join s) = Some r \<and>
           (0 < num_events s \<or> 1 \<le> k \<longrightarrow> 1 \<le> r) \<and>
           (r < 0 \<longrightarrow> num_events s = 0 \<and> k < 0 \<and> r = k) \<and>
           (r = 0 \<longrightarrow> num_events s = 0 \<and> k = 0)"
proof -
  let ?k = "android_pselect_rc s"
  let ?r = "nfds_return (num_events s) ?k"
  have "pselect_result (trace s) = Some ?k"
    using a join_reads_result [OF assms(1,2)] by simp
  moreover have "returned (android_select_join s) = Some ?r"
    using a by (simp add: returned_select_join)
  moreover have "0 < num_events s \<or> 1 \<le> ?k \<longrightarrow> 1 \<le> ?r"
    by (auto simp: nfds_return_def Let_def)
  moreover have "?r < 0 \<longrightarrow> num_events s = 0 \<and> ?k < 0 \<and> ?r = ?k"
    by (auto simp: nfds_return_def Let_def split: if_splits)
  moreover have "?r = 0 \<longrightarrow> num_events s = 0 \<and> ?k = 0"
    by (auto simp: nfds_return_def Let_def split: if_splits)
  ultimately show ?thesis by blast
qed

text \<open>
  Claim C2 fails on the code. \<^verbatim>\<open>android_select\<close> does not look at the value \<^verbatim>\<open>sem_wait\<close>
  returns (line 438), although the comment above it says that it waits for \<^verbatim>\<open>pselect\<close>
  to return in any case. First schedule: a call on an empty queue starts \<^verbatim>\<open>pselect\<close>,
  an event is written, and a signal handler interrupts \<^verbatim>\<open>sem_wait\<close>: the call returns 1
  while \<^verbatim>\<open>pselect\<close> still runs. Then \<^verbatim>\<open>pselect\<close> returns \<open>-1\<close> (interrupted by
  \<^verbatim>\<open>SIGUSR1\<close>), the select thread stores it and posts the semaphore. The event is read.
  The next call, on an empty queue, sends \<^verbatim>\<open>SIGUSR2\<close> and waits; the select thread's
  late signal on \<^verbatim>\<open>read_var\<close> wakes it, \<^verbatim>\<open>sem_wait\<close> takes the old post, and the call
  returns the old \<open>-1\<close> with no event queued, before the \<^verbatim>\<open>pselect\<close> it asked for has
  begun; that \<^verbatim>\<open>pselect\<close> then returns 1. So the call returned a negative value although
  its descriptor wait found a descriptor ready. Second schedule: the wait on
  \<^verbatim>\<open>read_var\<close> returns spuriously and \<^verbatim>\<open>sem_wait\<close> is interrupted: the call returns 0 from
  the initial value of \<^verbatim>\<open>android_pselect_rc\<close> while its \<^verbatim>\<open>pselect\<close> still runs, which
  then returns 1.
\<close>

theorem select_returns_stale_result:
  "returned (run [Select \<lparr>nfds = 1, readfds = Some 100, writefds = None, exceptfds = None, timeout = None, sigset = None\<rparr>,
        Thread_sigwait, Thread_pselect, Write_event 0 (Some 1) (Key_press 1 0 0 65),
        Select_resume, Select_join_interrupted, Thread_store (- 1), Thread_post,
        Next_event,
        Select \<lparr>nfds = 1, readfds = Some 100, writefds = None, exceptfds = None, timeout = None, sigset = None\<rparr>,
        Thread_notify, Select_resume, Select_join] android_init_events) = Some (- 1) \<and>
   num_events (state_after
       [Select \<lparr>nfds = 1, readfds = Some 100, writefds = None, exceptfds = None, timeout = None, sigset = None\<rparr>,
        Thread_sigwait, Thread_pselect, Write_event 0 (Some 1) (Key_press 1 0 0 65),
        Select_resume, Select_join_interrupted, Thread_store (- 1), Thread_post,
        Next_event,
        Select \<lparr>nfds = 1, readfds = Some 100, writefds = None, exceptfds = None, timeout = None, sigset = None\<rparr>,
        Thread_notify, Select_resume, Select_join]) = 0 \<and>
   sigusr2_pending (state_after
       [Select \<lparr>nfds = 1, readfds = Some 100, writefds = None, exceptfds = None, timeout = None, sigset = None\<rparr>,
        Thread_sigwait, Thread_pselect, Write_event 0 (Some 1) (Key_press 1 0 0 65),
        Select_resume, Select_join_interrupted, Thread_store (- 1), Thread_post,
        Next_event,
        Select \<lparr>nfds = 1, readfds = Some 100, writefds = None, exceptfds = None, timeout = None, sigset = None\<rparr>,
        Thread_notify, Select_resume, Select_join]) \<and>
   pselect_result (trace (state_after
       [Select \<lparr>nfds = 1, readfds = Some 100, writefds = None, exceptfds = None, timeout = None, sigset = None\<rparr>,
        Thread_sigwait, Thread_pselect, Write_event 0 (Some 1) (Key_press 1 0 0 65),
        Select_resume, Select_join_interrupted, Thread_store (- 1), Thread_post,
        Next_event,
        Select \<lparr>nfds = 1, readfds = Some 100, writefds = None, exceptfds = None, timeout = None, sigset = None\<rparr>,
        Thread_notify, Select_resume, Select_join])) = None \<and>
   pselect_result (trace (state_after
       ([Select \<lparr>nfds = 1, readfds = Some 100, writefds = None, exceptfds = None, timeout = None, sigset = None\<rparr>,
        Thread_sigwait, Thread_pselect, Write_event 0 (Some 1) (Key_press 1 0 0 65),
        Select_resume, Select_join_interrupted, Thread_store (- 1), Thread_post,
        Next_event,
        Select \<lparr>nfds = 1, readfds = Some 100, writefds = None, exceptfds = None, timeout = None, sigset = None\<rparr>,
        Thread_notify, Select_resume, Select_join] @
        [Thread_sigwait, Thread_pselect, Thread_store 1]))) = Some 1 \<and>
   returned (run [Select \<lparr>nfds = 1, readfds = Some 100, writefds = None, exceptfds = None, timeout = Some 200, sigset = None\<rparr>,
        Thread_sigwait, Thread_pselect, Spurious Emacs_thread, Select_resume,
        Select_join_interrupted] (android_init_events :: android_event sys)) = Some 0 \<and>
   select_thread (state_after
       [Select \<lparr>nfds = 1, readfds = Some 100, writefds = None, exceptfds = None, timeout = Some 200, sigset = None\<rparr>,
        Thread_sigwait, Thread_pselect, Spurious Emacs_thread, Select_resume,
        Select_join_interrupted] :: android_event sys) = S_pselect \<and>
   pselect_result (trace (state_after
       [Select \<lparr>nfds = 1, readfds = Some 100, writefds = None, exceptfds = None, timeout = Some 200, sigset = None\<rparr>,
        Thread_sigwait, Thread_pselect, Spurious Emacs_thread, Select_resume,
        Select_join_interrupted] :: android_event sys)) = None \<and>
   pselect_result (trace (state_after
       ([Select \<lparr>nfds = 1, readfds = Some 100, writefds = None, exceptfds = None, timeout = Some 200, sigset = None\<rparr>,
        Thread_sigwait, Thread_pselect, Spurious Emacs_thread, Select_resume,
        Select_join_interrupted] @ [Thread_store 1]) :: android_event sys)) = Some 1"
  by (simp add: run_defs returned_def return_value_def nfds_return_def pselect_result_def)

subsection \<open>Two failures\<close>

text \<open>
  Claim C9 fails on the code. The Emacs thread calls \<^verbatim>\<open>android_select\<close> on an empty
  queue; an event is written, the Emacs thread wakes and interrupts the select thread,
  which stores the result and posts the semaphore but does not get the queue mutex
  yet; \<^verbatim>\<open>android_select\<close> returns 1 and the event is read. A further call of
  \<^verbatim>\<open>android_next_event\<close> finds the queue empty and waits on \<^verbatim>\<open>read_var\<close> (line 354).
  Now the select thread takes the mutex and signals \<^verbatim>\<open>read_var\<close> (line 263). The wait
  returns, the count is not tested again, the container is the list head and
  \<^verbatim>\<open>eassert\<close> fails. A spurious return of the wait on an empty queue fails in the
  same way.
\<close>

theorem next_event_assertion_fails:
  "run [Select \<lparr>nfds = 1, readfds = Some 100, writefds = None, exceptfds = None,
                 timeout = None, sigset = None\<rparr>,
        Thread_sigwait, Thread_pselect,
        Write_event 0 (Some 1) (Key_press 1 0 0 65),
        Select_resume, Thread_store (- 1), Thread_post, Select_join,
        Next_event, Next_event, Thread_notify, Next_event_resume] android_init_events
   = Crash Assertion_failed \<and>
   run [Next_event, Spurious Emacs_thread, Next_event_resume]
     (android_init_events :: android_event sys)
   = Crash Assertion_failed"
  by (simp add: run_defs)

text \<open>A call of \<^verbatim>\<open>android_write_event\<close> that finds room.\<close>

lemma write_event_room:
  assumes inv: "queue_inv s as es" and idle: "producers s p = P_idle" and free: "mutex s = None"
    and fresh: "heap s c = None" and room: "num_events s < 1024"
  shows "\<exists>s' as' es'. android_write_event p (Some c) e s = State s' \<and> queue_inv s' as' es' \<and>
     num_events s' = num_events s + 1 \<and> mutex s' = None \<and> write_var s' = write_var s \<and>
     producers s' = (producers s)(p := P_idle) \<and> (emacs s = E_idle \<longrightarrow> emacs s' = E_idle) \<and>
     (\<forall>a. a \<noteq> c \<longrightarrow> (heap s' a = None) = (heap s a = None))"
proof -
  let ?cell = "\<lparr>next_ptr = None, last_ptr = None, event = None\<rparr> :: 'a android_event_container"
  let ?s1 = "s\<lparr>heap := (heap s)(c \<mapsto> ?cell)\<rparr>"
  let ?s2 = "pthread_mutex_lock (Producer p) Queue_mutex ?s1"
  note a = alloc_inv [OF inv fresh, of ?cell] alloc_fresh [OF inv fresh]
  have inv2: "queue_inv ?s2 as es"
    using a(1) same_queue_lock by (rule same_queue_inv)
  have f2: "heap ?s2 = heap ?s1" "producers ?s2 = producers s" "num_events ?s2 = num_events s"
    "write_var ?s2 = write_var s" "emacs ?s2 = emacs s"
    by (simp_all add: pthread_mutex_lock_def emit_def)
  have eq: "android_write_event p (Some c) e s = android_write_event_put p c e ?s2"
    using idle free fresh room by (simp add: android_write_event_def Let_def f2)
  from put_inv [OF inv2, of c p e] a(2,3,4) obtain t where
    t: "android_write_event_put p c e ?s2 = State t" "queue_inv t (c # as) (es @ [e])"
    by (auto simp: f2)
  note fr = put_frame [OF t(1)] put_dom [OF t(1)]
  have "\<forall>a. a \<noteq> c \<longrightarrow> (heap t a = None) = (heap s a = None)"
    using fr(2) by (simp add: f2)
  with eq t fr(1) show ?thesis by (auto simp: f2)
qed

lemma fill_queue_run:
  "n \<le> 1024 \<Longrightarrow>
   \<exists>s as es. run (fill_queue n e) android_init_events = State s \<and> queue_inv s as es \<and>
     num_events s = int n \<and> quiet s \<and> (\<forall>a. n < a \<longrightarrow> heap s a = None)"
proof (induction n)
  case 0
  have "quiet (android_init_events :: 'a sys)"
    by (simp add: quiet_def android_init_events_def)
  moreover have "\<forall>a. 0 < a \<longrightarrow> heap (android_init_events :: 'a sys) a = None"
    by (simp add: android_init_events_def events_addr_def)
  moreover have "num_events (android_init_events :: 'a sys) = 0"
    by (simp add: android_init_events_def)
  ultimately show ?case using queue_inv_init by (auto simp del: fun_upd_apply)
next
  case (Suc n)
  then obtain s as es where s: "run (fill_queue n e) android_init_events = State s"
    "queue_inv s as es" "num_events s = int n" "quiet s" "\<forall>a. n < a \<longrightarrow> heap s a = None"
    by auto
  have pre: "producers s 0 = P_idle" "mutex s = None" "heap s (Suc n) = None" "num_events s < 1024"
    using s Suc.prems by (auto simp: quiet_def)
  from write_event_room [OF s(2) pre, of e] obtain s' as' es' where s':
    "android_write_event 0 (Some (Suc n)) e s = State s'" "queue_inv s' as' es'"
    "num_events s' = num_events s + 1" "mutex s' = None" "write_var s' = write_var s"
    "producers s' = (producers s)(0 := P_idle)" "emacs s = E_idle \<longrightarrow> emacs s' = E_idle"
    "\<forall>a. a \<noteq> Suc n \<longrightarrow> (heap s' a = None) = (heap s a = None)"
    by blast
  have "run (fill_queue (Suc n) e) android_init_events = State s'"
    using s(1) s'(1) by (simp add: run_append)
  moreover have "quiet s'"
    using s(4) s' by (auto simp: quiet_def)
  moreover have "\<forall>a. Suc n < a \<longrightarrow> heap s' a = None"
    using s(5) s'(8) by auto
  moreover have "num_events s' = int (Suc n)" using s(3) s'(3) by simp
  ultimately show ?case using s'(2) by blast
qed

text \<open>A writer blocked on a full queue is overtaken by another writer after one event
  was read, and then inserts without looking at the count again.\<close>

lemma overflow_race:
  assumes inv: "queue_inv s as es" and full: "num_events s = 1024" and q: "quiet s"
    and fresh: "heap s 1025 = None" "heap s 1026 = None"
  shows "\<exists>s'. run [Write_event 1 (Some 1025) e, Next_event, Write_event 2 (Some 1026) e',
                    Write_event_resume 1] s = State s' \<and> num_events s' = 1025"
proof -
  let ?cell = "\<lparr>next_ptr = None, last_ptr = None, event = None\<rparr> :: 'a android_event_container"
  let ?s0 = "pthread_mutex_lock (Producer 1) Queue_mutex (s\<lparr>heap := (heap s)(1025 \<mapsto> ?cell)\<rparr>)"
  define s1 where "s1 = pthread_cond_wait_enter (Producer 1) Write_var
      (?s0\<lparr>write_var := write_var ?s0 @ [1], producers := (producers ?s0)(1 := P_blocked 1025 e)\<rparr>)"
  have q': "emacs s = E_idle" "mutex s = None" "write_var s = []" "\<And>p. producers s p = P_idle"
    using q by (auto simp: quiet_def)
  have st1: "android_write_event 1 (Some 1025) e s = State s1"
    using q' full fresh unfolding s1_def
    by (simp add: android_write_event_def Let_def pthread_mutex_lock_def emit_def)
  from write_event_inv [OF inv st1] obtain as1 es1 where inv1: "queue_inv s1 as1 es1" by blast
  have f1: "num_events s1 = 1024" "emacs s1 = E_idle" "mutex s1 = None" "write_var s1 = [1]"
    "producers s1 = (producers s)(1 := P_blocked 1025 e)" "heap s1 1026 = None"
    using q' full fresh unfolding s1_def
    by (simp_all add: pthread_cond_wait_enter_def pthread_mutex_lock_def emit_def)
  define l1 where "l1 = pthread_mutex_lock Emacs_thread Queue_mutex s1"
  have invl: "queue_inv l1 as1 es1"
    unfolding l1_def using inv1 same_queue_lock by (rule same_queue_inv)
  have fl: "num_events l1 = 1024" "write_var l1 = [1]"
    "producers l1 = (producers s)(1 := P_blocked 1025 e)" "heap l1 1026 = None"
    using f1 unfolding l1_def by (simp_all add: pthread_mutex_lock_def emit_def)
  have "as1 \<noteq> []" using invl fl(1) by (auto simp: queue_inv_def)
  from take_inv [OF invl this] obtain s2 where s2:
    "android_next_event_take l1 = State s2" "queue_inv s2 (butlast as1) (tl es1)"
    by blast
  have "android_next_event s1 = android_next_event_take l1"
    using f1 fl(1) unfolding l1_def by (simp add: android_next_event_def Let_def)
  with s2(1) have st2: "android_next_event s1 = State s2" by simp
  note t = take_frame [OF s2(1)]
  have pl: "producers l1 1 = P_blocked 1025 e" using fl(3) by simp
  have f2: "mutex s2 = None" "emacs s2 = E_idle" "num_events s2 = 1023"
    "producers s2 = (producers l1)(1 := P_woken 1025 e)"
    "heap s2 1026 = None"
    using t(1,2,3) t(5) [OF fl(2) pl] t(6) [OF fl(4)] fl(1) by simp_all
  have p2: "producers s2 2 = P_idle" using f2(4) fl(3) q'(4) by simp
  have room: "num_events s2 < 1024" using f2(3) by simp
  from write_event_room [OF s2(2) p2 f2(1) f2(5) room, of e'] f2(3) obtain s3 as3 es3 where s3:
    "android_write_event 2 (Some 1026) e' s2 = State s3" "queue_inv s3 as3 es3"
    "num_events s3 = 1024" "mutex s3 = None" "producers s3 = (producers s2)(2 := P_idle)"
    by auto
  have p3: "producers s3 1 = P_woken 1025 e" using s3(5) f2(4) by simp
  define l3 where "l3 = pthread_cond_wait_leave (Producer 1) Write_var s3"
  have inv3: "queue_inv l3 as3 es3"
    unfolding l3_def using s3(2) same_queue_wait_leave by (rule same_queue_inv)
  have fl3: "heap l3 = heap s3" "producers l3 = producers s3" "num_events l3 = 1024"
    using s3(3) unfolding l3_def by (simp_all add: pthread_cond_wait_leave_def emit_def)
  have "container_of (producers s3 1) = Some 1025" using p3 by simp
  from queue_inv_container [OF s3(2) this]
  have c: "heap l3 1025 \<noteq> None" "1025 \<notin> set as3" "1025 \<noteq> events_addr"
    "\<forall>q. q \<noteq> 1 \<longrightarrow> container_of (producers l3 q) \<noteq> Some 1025"
    using fl3 by simp_all
  from put_inv [OF inv3 c, of e] fl3(3) obtain s4 where s4:
    "android_write_event_put 1 1025 e l3 = State s4" "num_events s4 = 1025"
    by auto
  have st4: "android_write_event_resume 1 s3 = State s4"
    using p3 s3(4) s4(1) unfolding l3_def by (simp add: android_write_event_resume_def)
  have "run [Write_event 1 (Some 1025) e, Next_event, Write_event 2 (Some 1026) e',
             Write_event_resume 1] s = State s4"
    using st1 st2 s3(1) st4 by simp
  with s4(2) show ?thesis by blast
qed

text \<open>A writer blocked on a full queue whose wait returns without a signal inserts
  although nothing was read.\<close>

lemma overflow_spurious:
  assumes inv: "queue_inv s as es" and full: "num_events s = 1024" and q: "quiet s"
    and fresh: "heap s 1025 = None"
  shows "\<exists>s'. run [Write_event 1 (Some 1025) e, Spurious (Producer 1), Write_event_resume 1] s
      = State s' \<and> num_events s' = 1025"
proof -
  let ?cell = "\<lparr>next_ptr = None, last_ptr = None, event = None\<rparr> :: 'a android_event_container"
  let ?s0 = "pthread_mutex_lock (Producer 1) Queue_mutex (s\<lparr>heap := (heap s)(1025 \<mapsto> ?cell)\<rparr>)"
  define s1 where "s1 = pthread_cond_wait_enter (Producer 1) Write_var
      (?s0\<lparr>write_var := write_var ?s0 @ [1], producers := (producers ?s0)(1 := P_blocked 1025 e)\<rparr>)"
  have q': "emacs s = E_idle" "mutex s = None" "write_var s = []" "\<And>p. producers s p = P_idle"
    using q by (auto simp: quiet_def)
  have st1: "android_write_event 1 (Some 1025) e s = State s1"
    using q' full fresh unfolding s1_def
    by (simp add: android_write_event_def Let_def pthread_mutex_lock_def emit_def)
  from write_event_inv [OF inv st1] obtain as1 es1 where inv1: "queue_inv s1 as1 es1" by blast
  have f1: "num_events s1 = 1024" "mutex s1 = None" "producers s1 1 = P_blocked 1025 e"
    using q' full unfolding s1_def
    by (simp_all add: pthread_cond_wait_enter_def pthread_mutex_lock_def emit_def)
  define s2 where "s2 = s1\<lparr>write_var := removeAll 1 (write_var s1),
      producers := (producers s1)(1 := P_woken 1025 e)\<rparr>"
  have st2: "spurious_wakeup (Producer 1) s1 = State s2"
    using f1 unfolding s2_def by (simp add: spurious_wakeup_def)
  then have "same_queue s1 s2" by (rule same_queue_spurious)
  with inv1 have inv2: "queue_inv s2 as1 es1" by (rule same_queue_inv)
  have f2: "num_events s2 = 1024" "mutex s2 = None" "producers s2 1 = P_woken 1025 e"
    using f1 unfolding s2_def by simp_all
  define l2 where "l2 = pthread_cond_wait_leave (Producer 1) Write_var s2"
  have invl: "queue_inv l2 as1 es1"
    unfolding l2_def using inv2 same_queue_wait_leave by (rule same_queue_inv)
  have fl: "heap l2 = heap s2" "producers l2 = producers s2" "num_events l2 = 1024"
    using f2 unfolding l2_def by (simp_all add: pthread_cond_wait_leave_def emit_def)
  have "container_of (producers s2 1) = Some 1025" using f2 by simp
  from queue_inv_container [OF inv2 this]
  have c: "heap l2 1025 \<noteq> None" "1025 \<notin> set as1" "1025 \<noteq> events_addr"
    "\<forall>q. q \<noteq> 1 \<longrightarrow> container_of (producers l2 q) \<noteq> Some 1025"
    using fl by simp_all
  from put_inv [OF invl c, of e] fl(3) obtain s3 where s3:
    "android_write_event_put 1 1025 e l2 = State s3" "num_events s3 = 1025"
    by auto
  have st3: "android_write_event_resume 1 s2 = State s3"
    using f2 s3(1) unfolding l2_def by (simp add: android_write_event_resume_def)
  have "run [Write_event 1 (Some 1025) e, Spurious (Producer 1), Write_event_resume 1] s = State s3"
    using st1 st2 st3 by simp
  with s3(2) show ?thesis by blast
qed

text \<open>
  Claim C4 fails on the code. After 1024 events were written, a writer blocks on
  \<^verbatim>\<open>write_var\<close> (line 390). One event is read, which signals \<^verbatim>\<open>write_var\<close>; before the
  woken writer has the mutex again another writer finds 1023 events and inserts its
  event. The woken writer does not test the count again and inserts as well:
  \<^verbatim>\<open>num_events\<close> is 1025. The same happens with one writer and no reader when the wait
  returns spuriously.
\<close>

theorem capacity_exceeded:
  "num_events (state_after
     (fill_queue 1024 (Key_press 1 0 0 65) @
      [Write_event 1 (Some 1025) (Key_press 1 0 0 66), Next_event,
       Write_event 2 (Some 1026) (Key_press 1 0 0 67), Write_event_resume 1])) = 1025 \<and>
   num_events (state_after
     (fill_queue 1024 (Key_press 1 0 0 65) @
      [Write_event 1 (Some 1025) (Key_press 1 0 0 66), Spurious (Producer 1),
       Write_event_resume 1])) = 1025"
proof -
  from fill_queue_run [of 1024 "Key_press 1 0 0 65"] obtain s as es where s:
    "run (fill_queue 1024 (Key_press 1 0 0 65)) android_init_events = State s"
    "queue_inv s as es" "num_events s = 1024" "quiet s" "\<forall>a. 1024 < a \<longrightarrow> heap s a = None"
    by auto
  have fresh: "heap s 1025 = None" "heap s 1026 = None" using s(5) by simp_all
  from overflow_race [OF s(2,3,4) fresh] obtain s' where s':
    "run [Write_event 1 (Some 1025) (Key_press 1 0 0 66), Next_event,
          Write_event 2 (Some 1026) (Key_press 1 0 0 67), Write_event_resume 1] s = State s'"
    "num_events s' = 1025"
    by blast
  from overflow_spurious [OF s(2,3,4) fresh(1)] obtain t where t:
    "run [Write_event 1 (Some 1025) (Key_press 1 0 0 66), Spurious (Producer 1),
          Write_event_resume 1] s = State t"
    "num_events t = 1025"
    by blast
  show ?thesis
    using s(1) s' t by (simp add: state_after_def run_append)
qed


end
